theory Spec2Isabelle
  imports Main "HOL-Library.Word"
begin

unbundle bit_operations_syntax

section \<open>The integer types of csim.c\<close>

text \<open>
  A C \<open>long\<close> (64 bits, signed) and a C \<open>int\<close> are kept as their mathematical
  value. An operation on them whose result C leaves undefined (a sum outside the range
  of \<open>long\<close>, a shift by a negative count or by 64 and more, a signed left shift
  whose result is not representable) is the value \<open>None\<close>. An \<open>unsigned long\<close> is a
  64-bit word: its arithmetic wraps around, as C defines it. Memory is taken to be
  sufficient: \<open>malloc\<close> does not fail, and \<open>free\<close> followed by \<open>newLine\<close> on a slot
  is the replacement of the line in that slot.
\<close>

type_synonym long = int
type_synonym ulong = "64 word"

definition LONG_MAX :: int where
  "LONG_MAX = 9223372036854775807"

definition INT_MAX :: int where
  "INT_MAX = 2147483647"

definition add_long :: "long \<Rightarrow> long \<Rightarrow> long option" where
  "add_long x y =
     (if - LONG_MAX - 1 \<le> x + y \<and> x + y \<le> LONG_MAX then Some (x + y) else None)"

definition shl_long :: "long \<Rightarrow> int \<Rightarrow> long option" where
  "shl_long x n =
     (if 0 \<le> n \<and> n < 64 \<and> 0 \<le> x \<and> x * 2 ^ nat n \<le> LONG_MAX
      then Some (x * 2 ^ nat n) else None)"

definition shr_ulong :: "ulong \<Rightarrow> int \<Rightarrow> ulong option" where
  "shr_ulong x n = (if 0 \<le> n \<and> n < 64 then Some (drop_bit (nat n) x) else None)"

definition shl_ulong :: "ulong \<Rightarrow> int \<Rightarrow> ulong option" where
  "shl_ulong x n = (if 0 \<le> n \<and> n < 64 then Some (push_bit (nat n) x) else None)"

text \<open>The conversions between \<open>long\<close> and \<open>unsigned long\<close> keep the 64 bits.\<close>

definition ulong_of_long :: "long \<Rightarrow> ulong" where
  "ulong_of_long x = word_of_int x"

definition long_of_ulong :: "ulong \<Rightarrow> long" where
  "long_of_ulong w = sint w"

section \<open>The structures\<close>

text \<open>
  \<open>Line\<close>, \<open>Set\<close> and \<open>Cache\<close> are the three structs of csim.c. The arrays of
  pointers \<open>lines\<close> and \<open>sets\<close> are lists of the objects they point to: every line
  and every set is allocated once for one slot and no pointer is shared. The fields
  \<open>s\<close> and \<open>E\<close> of \<open>Cache\<close> are written \<open>cache_s\<close> and \<open>cache_E\<close>.
\<close>

record Line =
  dirtyBit :: long
  tagBit :: long
  lruCounter :: long

record Set =
  num :: long
  capacity :: long
  lines :: "Line list"

record Cache =
  cache_s :: long
  cache_E :: long
  opCounter :: long
  sets :: "Set list"

text \<open>
  Modelled from the spec: \<open>csim_stats_t\<close> is declared in cachelab.h, which is not
  among the sources. The spec gives it five non-negative integer counters, and
  \<open>main\<close> prints each of them with the conversion \<open>%lx\<close>, that of an
  \<open>unsigned long\<close>.
\<close>

record csim_stats_t =
  hits :: ulong
  misses :: ulong
  evictions :: ulong
  dirty_bytes :: ulong
  dirty_evictions :: ulong

section \<open>Construction\<close>

definition newLine :: "long \<Rightarrow> long \<Rightarrow> long \<Rightarrow> Line" where
  "newLine d t lruCount = \<lparr>dirtyBit = d, tagBit = t, lruCounter = lruCount\<rparr>"

text \<open>
  \<open>newSet\<close> fills the array with a loop over an \<open>int\<close> counter, which overflows
  when the capacity is above \<open>INT_MAX\<close>. For a capacity that is not positive the
  array has no slot.
\<close>

definition newSet :: "long \<Rightarrow> Set option" where
  "newSet cap =
     (if cap \<le> INT_MAX
      then Some \<lparr>num = 0, capacity = cap, lines = replicate (nat cap) (newLine 0 0 0)\<rparr>
      else None)"

text \<open>
  \<open>createCache\<close> stores \<open>1L << s\<close>, the number of sets, in the field \<open>s\<close> and builds
  that many sets, again with an \<open>int\<close> counter.
\<close>

definition createCache :: "long \<Rightarrow> long \<Rightarrow> Cache option" where
  "createCache s E =
     (case shl_long 1 s of
        None \<Rightarrow> None
      | Some n \<Rightarrow>
          if n \<le> INT_MAX then
            (case newSet E of
               None \<Rightarrow> None
             | Some st \<Rightarrow>
                 Some \<lparr>cache_s = n, cache_E = E, opCounter = 0, sets = replicate (nat n) st\<rparr>)
          else None)"

section \<open>The access\<close>

definition setEmpty :: "Set \<Rightarrow> bool" where
  "setEmpty st \<longleftrightarrow> num st = 0"

text \<open>
  The loop of \<open>indexLRU\<close>: \<open>i\<close> is the counter, \<open>mn\<close> the local \<open>min\<close> and
  \<open>index\<close> the local \<open>index\<close>. A read of \<open>lines[i]\<close> outside the array is
  \<open>None\<close>. The counter is an \<open>int\<close> of the source; it stays below \<open>num\<close>, which
  is at most \<open>INT_MAX\<close> in every set that \<open>newSet\<close> builds, so it is kept as a
  natural number.
\<close>

function indexLRU_loop :: "Set \<Rightarrow> nat \<Rightarrow> long \<Rightarrow> int \<Rightarrow> int option" where
  "indexLRU_loop st i mn index =
     (if int i < num st then
        (if i < length (lines st) then
           (if mn < 0 then
              indexLRU_loop st (i + 1) (lruCounter (lines st ! i)) (int i)
            else if lruCounter (lines st ! i) < mn then
              indexLRU_loop st (i + 1) (lruCounter (lines st ! i)) (int i)
            else indexLRU_loop st (i + 1) mn index)
         else None)
      else Some index)"
  by pat_completeness auto
termination
  by (relation "measure (\<lambda>(st, i, mn, index). nat (num st) - i)") auto

definition indexLRU :: "Set \<Rightarrow> int option" where
  "indexLRU st = indexLRU_loop st 0 (- 1) (- 1)"

text \<open>
  The statement \<open>if (dirtyBit > 0) results->dirty_bytes += (1L << b)\<close>, which the
  three cases of \<open>addToSet\<close> share.
\<close>

definition add_dirty_bytes :: "long \<Rightarrow> long \<Rightarrow> csim_stats_t \<Rightarrow> csim_stats_t option" where
  "add_dirty_bytes dirty b r =
     (if dirty > 0 then
        (case shl_long 1 b of
           None \<Rightarrow> None
         | Some v \<Rightarrow> Some (r\<lparr>dirty_bytes := dirty_bytes r + ulong_of_long v\<rparr>))
      else Some r)"

text \<open>
  The loop that looks for a hit, the same in the second and the third case of
  \<open>addToSet\<close>: \<open>opc\<close> is \<open>cache->opCounter\<close>, \<open>i\<close> the counter and \<open>isIn\<close> the
  local flag. The loop does not stop at the first line whose tag matches.
\<close>

function hitLoop ::
  "long \<Rightarrow> long \<Rightarrow> long \<Rightarrow> long \<Rightarrow> nat \<Rightarrow> Set \<Rightarrow> csim_stats_t \<Rightarrow> bool
   \<Rightarrow> (Set \<times> csim_stats_t \<times> bool) option" where
  "hitLoop opc dirty tag b i st results isIn =
     (if int i < num st then
        (if i < length (lines st) then
           (if tag = tagBit (lines st ! i) then
              (let l1 = (lines st ! i)\<lparr>lruCounter := opc\<rparr> in
               if dirtyBit l1 = 0 then
                 (if dirty > 0 then
                    (case shl_long 1 b of
                       None \<Rightarrow> None
                     | Some v \<Rightarrow>
                         hitLoop opc dirty tag b (i + 1)
                           (st\<lparr>lines := (lines st)[i := l1\<lparr>dirtyBit := dirty\<rparr>]\<rparr>)
                           (results\<lparr>dirty_bytes := dirty_bytes results + ulong_of_long v\<rparr>)
                           True)
                  else hitLoop opc dirty tag b (i + 1)
                         (st\<lparr>lines := (lines st)[i := l1]\<rparr>) results True)
               else hitLoop opc dirty tag b (i + 1)
                      (st\<lparr>lines := (lines st)[i := l1]\<rparr>) results True)
            else hitLoop opc dirty tag b (i + 1) st results isIn)
         else None)
      else Some (st, results, isIn))"
  by pat_completeness auto
termination
  by (relation "measure (\<lambda>(opc, dirty, tag, b, i, st, results, isIn). nat (num st) - i)")
    auto

text \<open>First case of \<open>addToSet\<close>: no line of the set is in use.\<close>

definition addToSet_empty ::
  "csim_stats_t \<Rightarrow> long \<Rightarrow> Set \<Rightarrow> long \<Rightarrow> long \<Rightarrow> long \<Rightarrow> (csim_stats_t \<times> Set) option" where
  "addToSet_empty results opc st dirty tag b =
     (if 0 < length (lines st) then
        (case add_long (num st) 1 of
           None \<Rightarrow> None
         | Some n \<Rightarrow>
             (case add_dirty_bytes dirty b (results\<lparr>misses := misses results + 1\<rparr>) of
                None \<Rightarrow> None
              | Some r \<Rightarrow>
                  Some (r, st\<lparr>lines := (lines st)[0 := newLine dirty tag opc], num := n\<rparr>)))
      else None)"

text \<open>Second case: some lines are in use and \<open>num\<close> differs from \<open>capacity\<close>.\<close>

definition addToSet_space ::
  "csim_stats_t \<Rightarrow> long \<Rightarrow> Set \<Rightarrow> long \<Rightarrow> long \<Rightarrow> long \<Rightarrow> (csim_stats_t \<times> Set) option" where
  "addToSet_space results opc st dirty tag b =
     (case hitLoop opc dirty tag b 0 st results False of
        None \<Rightarrow> None
      | Some (st1, r1, isIn) \<Rightarrow>
          if isIn then Some (r1\<lparr>hits := hits r1 + 1\<rparr>, st1)
          else if 0 \<le> num st1 \<and> nat (num st1) < length (lines st1) then
            (case add_dirty_bytes dirty b (r1\<lparr>misses := misses r1 + 1\<rparr>) of
               None \<Rightarrow> None
             | Some r2 \<Rightarrow>
                 (case add_long (num st1) 1 of
                    None \<Rightarrow> None
                  | Some n \<Rightarrow>
                      Some (r2, st1\<lparr>lines := (lines st1)[nat (num st1) := newLine dirty tag opc],
                                    num := n\<rparr>)))
          else None)"

text \<open>Third case: \<open>num\<close> equals \<open>capacity\<close>; a miss evicts the line of \<open>indexLRU\<close>.\<close>

definition addToSet_full ::
  "csim_stats_t \<Rightarrow> long \<Rightarrow> Set \<Rightarrow> long \<Rightarrow> long \<Rightarrow> long \<Rightarrow> (csim_stats_t \<times> Set) option" where
  "addToSet_full results opc st dirty tag b =
     (case hitLoop opc dirty tag b 0 st results False of
        None \<Rightarrow> None
      | Some (st1, r1, isIn) \<Rightarrow>
          if isIn then Some (r1\<lparr>hits := hits r1 + 1\<rparr>, st1)
          else
            (let r2 = r1\<lparr>misses := misses r1 + 1, evictions := evictions r1 + 1\<rparr> in
             case indexLRU st1 of
               None \<Rightarrow> None
             | Some evictIndex \<Rightarrow>
                 if 0 \<le> evictIndex \<and> nat evictIndex < length (lines st1) then
                   (case (if dirtyBit (lines st1 ! nat evictIndex) > 0 then
                            (case shl_long 1 b of
                               None \<Rightarrow> None
                             | Some v \<Rightarrow>
                                 Some (r2\<lparr>dirty_bytes := dirty_bytes r2 - ulong_of_long v,
                                          dirty_evictions := dirty_evictions r2 + ulong_of_long v\<rparr>))
                          else Some r2) of
                      None \<Rightarrow> None
                    | Some r3 \<Rightarrow>
                        (case add_dirty_bytes dirty b r3 of
                           None \<Rightarrow> None
                         | Some r4 \<Rightarrow>
                             Some (r4, st1\<lparr>lines := (lines st1)[nat evictIndex :=
                                     (lines st1 ! nat evictIndex)
                                       \<lparr>dirtyBit := dirty, tagBit := tag, lruCounter := opc\<rparr>]\<rparr>)))
                 else None))"

text \<open>
  \<open>addToSet\<close>. The pointer \<open>set\<close> of the source is always \<open>cache->sets[k]\<close> for an
  index \<open>k\<close>; the model takes the index, and an index outside the array is
  \<open>None\<close>. The last statement increments \<open>opCounter\<close>.
\<close>

definition addToSet ::
  "csim_stats_t \<Rightarrow> Cache \<Rightarrow> nat \<Rightarrow> long \<Rightarrow> long \<Rightarrow> long \<Rightarrow> (csim_stats_t \<times> Cache) option" where
  "addToSet results cache k dirty tag b =
     (if k < length (sets cache) then
        (case (let st = sets cache ! k in
               if setEmpty st then addToSet_empty results (opCounter cache) st dirty tag b
               else if num st \<noteq> capacity st then
                 addToSet_space results (opCounter cache) st dirty tag b
               else addToSet_full results (opCounter cache) st dirty tag b) of
           None \<Rightarrow> None
         | Some (results', st') \<Rightarrow>
             (case add_long (opCounter cache) 1 of
                None \<Rightarrow> None
              | Some c \<Rightarrow>
                  Some (results', cache\<lparr>sets := (sets cache)[k := st'], opCounter := c\<rparr>)))
      else None)"

section \<open>The loop of main\<close>

text \<open>
  The set index and the tag of an address, as \<open>main\<close> computes them from the options
  \<open>s\<close> and \<open>b\<close> (both \<open>int\<close>).
\<close>

definition decompose :: "int \<Rightarrow> int \<Rightarrow> ulong \<Rightarrow> (ulong \<times> ulong) option" where
  "decompose s b address =
     (case (if s = 0 then Some 0
            else
              (case shr_ulong address b of
                 None \<Rightarrow> None
               | Some x1 \<Rightarrow>
                   (case shl_ulong x1 (64 - s) of
                      None \<Rightarrow> None
                    | Some x2 \<Rightarrow> shr_ulong x2 (64 - s)))) of
        None \<Rightarrow> None
      | Some setIdx \<Rightarrow>
          (case shr_ulong address (b + s) of
             None \<Rightarrow> None
           | Some tag \<Rightarrow> Some (setIdx, tag)))"

text \<open>
  A record of the trace is what \<open>fscanf\<close> stores: the operation character, the
  address and the size. \<open>access\<close> is the body of the loop of \<open>main\<close>.
\<close>

type_synonym trace_record = "char \<times> ulong \<times> int"

definition access ::
  "int \<Rightarrow> int \<Rightarrow> csim_stats_t \<times> Cache \<Rightarrow> trace_record \<Rightarrow> (csim_stats_t \<times> Cache) option" where
  "access s b rc rcd =
     (case rc of (results, cache) \<Rightarrow>
      case rcd of (oper, addr, sz) \<Rightarrow>
        (case decompose s b addr of
           None \<Rightarrow> None
         | Some (setIdx, tag) \<Rightarrow>
             if oper = CHR ''S'' then
               addToSet results cache (unat setIdx) 1 (long_of_ulong tag) b
             else addToSet results cache (unat setIdx) 0 (long_of_ulong tag) b))"

fun main_loop ::
  "int \<Rightarrow> int \<Rightarrow> csim_stats_t \<times> Cache \<Rightarrow> trace_record list \<Rightarrow> (csim_stats_t \<times> Cache) option" where
  "main_loop s b rc [] = Some rc"
| "main_loop s b rc (rcd # rest) =
     (case access s b rc rcd of
        None \<Rightarrow> None
      | Some rc' \<Rightarrow> main_loop s b rc' rest)"

definition init_results :: csim_stats_t where
  "init_results = \<lparr>hits = 0, misses = 0, evictions = 0, dirty_bytes = 0, dirty_evictions = 0\<rparr>"

text \<open>\<open>main\<close> from the creation of the cache to the end of the trace.\<close>

definition main_run ::
  "int \<Rightarrow> int \<Rightarrow> int \<Rightarrow> trace_record list \<Rightarrow> (csim_stats_t \<times> Cache) option" where
  "main_run s E b trace =
     (case createCache s E of
        None \<Rightarrow> None
      | Some cache \<Rightarrow> main_loop s b (init_results, cache) trace)"

section \<open>Notions of the statements\<close>

text \<open>
  The block size in bytes is the value of \<open>1L << b\<close> as the counters, which are
  \<open>unsigned long\<close>, receive it.
\<close>

definition block_size_bytes :: "long \<Rightarrow> ulong" where
  "block_size_bytes b = (case shl_long 1 b of None \<Rightarrow> 0 | Some v \<Rightarrow> ulong_of_long v)"

text \<open>The lines of a set that are in use: the first \<open>num\<close> slots of its array.\<close>

definition resident :: "Set \<Rightarrow> Line list" where
  "resident st = take (nat (num st)) (lines st)"

text \<open>
  The sum of the block size over the dirty lines in use, of a set and of the whole
  cache, computed as the counter \<open>dirty_bytes\<close> is, in \<open>unsigned long\<close>.
\<close>

definition dirty_sum_set :: "long \<Rightarrow> Set \<Rightarrow> ulong" where
  "dirty_sum_set b st =
     sum_list (map (\<lambda>l. if dirtyBit l > 0 then block_size_bytes b else 0) (resident st))"

definition dirty_sum :: "long \<Rightarrow> Cache \<Rightarrow> ulong" where
  "dirty_sum b c = sum_list (map (dirty_sum_set b) (sets c))"

text \<open>The number of dirty lines in use in the whole cache.\<close>

definition dirty_count :: "Cache \<Rightarrow> nat" where
  "dirty_count c =
     sum_list (map (\<lambda>st. length (filter (\<lambda>l. dirtyBit l > 0) (resident st))) (sets c))"

text \<open>
  \<open>first_min_upto st m j\<close>: among the first \<open>m\<close> lines of the set, line \<open>j\<close> has
  the least \<open>lruCounter\<close>, and it is the first one that has it.
\<close>

definition first_min_upto :: "Set \<Rightarrow> nat \<Rightarrow> nat \<Rightarrow> bool" where
  "first_min_upto st m j \<longleftrightarrow>
     j < m \<and>
     (\<forall>i<m. lruCounter (lines st ! j) \<le> lruCounter (lines st ! i)) \<and>
     (\<forall>i<j. lruCounter (lines st ! j) < lruCounter (lines st ! i))"

text \<open>
  The shape of the sets and of the cache that \<open>createCache\<close> builds and every access
  keeps: the array of a set has \<open>E\<close> slots, \<open>num\<close> is between 0 and \<open>E\<close>, the
  lines in use have different tags, stamps that are not negative, and a dirty bit
  that is 0 or 1.
\<close>

definition set_ok :: "long \<Rightarrow> Set \<Rightarrow> bool" where
  "set_ok E st \<longleftrightarrow>
     capacity st = E \<and> int (length (lines st)) = E \<and> 0 \<le> num st \<and> num st \<le> E \<and>
     (\<forall>i j. int i < num st \<and> int j < num st \<and> i \<noteq> j
        \<longrightarrow> tagBit (lines st ! i) \<noteq> tagBit (lines st ! j)) \<and>
     (\<forall>i. int i < num st \<longrightarrow>
        0 \<le> lruCounter (lines st ! i) \<and>
        (dirtyBit (lines st ! i) = 0 \<or> dirtyBit (lines st ! i) = 1))"

definition cache_ok :: "Cache \<Rightarrow> bool" where
  "cache_ok c \<longleftrightarrow>
     0 < cache_E c \<and> cache_E c \<le> INT_MAX \<and> 0 \<le> opCounter c \<and>
     int (length (sets c)) = cache_s c \<and>
     (\<forall>k<length (sets c). set_ok (cache_E c) (sets c ! k))"

text \<open>
  The options that \<open>main\<close> can run with: every shift of the program is defined and
  the counters of the construction loops stay in the range of \<open>int\<close>.
\<close>

definition valid_config :: "int \<Rightarrow> int \<Rightarrow> int \<Rightarrow> bool" where
  "valid_config s E b \<longleftrightarrow>
     0 \<le> s \<and> s \<le> 30 \<and> 0 < E \<and> E \<le> INT_MAX \<and> 0 \<le> b \<and> b \<le> 62 \<and> b + s < 64"

text \<open>What holds of the counters and the cache between two accesses of a run.\<close>

definition state_inv :: "int \<Rightarrow> int \<Rightarrow> int \<Rightarrow> csim_stats_t \<Rightarrow> Cache \<Rightarrow> bool" where
  "state_inv s E b r c \<longleftrightarrow>
     cache_ok c \<and> cache_E c = E \<and> length (sets c) = 2 ^ nat s \<and>
     opCounter c \<le> LONG_MAX \<and>
     dirty_bytes r = dirty_sum b c \<and>
     uint (hits r) + uint (misses r) = opCounter c \<and>
     uint (evictions r) \<le> uint (misses r)"

section \<open>Auxiliary facts\<close>

declare indexLRU_loop.simps [simp del]

declare hitLoop.simps [simp del]

lemma newLine_sel [simp]:
  "dirtyBit (newLine d t l) = d" "tagBit (newLine d t l) = t" "lruCounter (newLine d t l) = l"
  by (simp_all add: newLine_def)

lemma shl_long_1: "0 \<le> b \<Longrightarrow> b \<le> 62 \<Longrightarrow> shl_long 1 b = Some (2 ^ nat b)"
proof -
  assume b: "0 \<le> b" "b \<le> 62"
  then have "nat b \<le> 62" by simp
  then have "(2::int) ^ nat b \<le> 2 ^ 62" by (intro power_increasing) simp_all
  then show ?thesis using b by (simp add: shl_long_def LONG_MAX_def)
qed

lemma add_dirty_bytes_ok:
  "0 \<le> b \<Longrightarrow> b \<le> 62 \<Longrightarrow>
   add_dirty_bytes dirty b r =
     Some (r\<lparr>dirty_bytes := dirty_bytes r + (if dirty > 0 then block_size_bytes b else 0)\<rparr>)"
  by (simp add: add_dirty_bytes_def block_size_bytes_def shl_long_1)

lemma hitLoop_nomatch:
  "num st \<le> int (length (lines st)) \<Longrightarrow>
   (\<And>j. i \<le> j \<Longrightarrow> int j < num st \<Longrightarrow> tagBit (lines st ! j) \<noteq> tag) \<Longrightarrow>
   hitLoop opc dirty tag b i st r isIn = Some (st, r, isIn)"
proof (induction "nat (num st) - i" arbitrary: i)
  case 0
  then have "\<not> int i < num st" by linarith
  then show ?case by (subst hitLoop.simps) simp
next
  case (Suc n)
  from Suc.hyps(2) have lt: "int i < num st" by linarith
  with Suc.prems(1) have il: "i < length (lines st)" by linarith
  have nm: "tagBit (lines st ! i) \<noteq> tag" using Suc.prems(2)[of i] lt by simp
  have "hitLoop opc dirty tag b (i + 1) st r isIn = Some (st, r, isIn)"
    using Suc.hyps(2) Suc.prems by (intro Suc.hyps(1)) auto
  then show ?case using lt il nm by (subst hitLoop.simps) auto
qed

lemma Line_clean_upd:
  "dirtyBit l = 0 \<Longrightarrow> l\<lparr>lruCounter := opc, dirtyBit := 0\<rparr> = l\<lparr>lruCounter := opc\<rparr>"
  by (cases l) simp

lemma hitLoop_match:
  assumes "num st \<le> int (length (lines st))" "0 \<le> b" "b \<le> 62"
    and "i \<le> j" "int j < num st" "tagBit (lines st ! j) = tag"
    and "\<And>j'. j' \<noteq> j \<Longrightarrow> int j' < num st \<Longrightarrow> tagBit (lines st ! j') \<noteq> tag"
  shows "hitLoop opc dirty tag b i st r isIn =
     Some (st\<lparr>lines := (lines st)[j := (lines st ! j)
                \<lparr>lruCounter := opc,
                 dirtyBit := (if dirtyBit (lines st ! j) = 0 \<and> dirty > 0 then dirty
                              else dirtyBit (lines st ! j))\<rparr>]\<rparr>,
           r\<lparr>dirty_bytes := dirty_bytes r +
                (if dirtyBit (lines st ! j) = 0 \<and> dirty > 0 then block_size_bytes b else 0)\<rparr>,
           True)"
  using assms(4)
proof (induction "j - i" arbitrary: i isIn)
  case 0
  then have ij: "i = j" by simp
  have jl: "j < length (lines st)" using assms(1,5) by linarith
  have rest: "hitLoop opc dirty tag b (Suc j) (st\<lparr>lines := (lines st)[j := l']\<rparr>) r' True
     = Some (st\<lparr>lines := (lines st)[j := l']\<rparr>, r', True)" for l' r'
    using assms(1,7) hitLoop_nomatch[of "st\<lparr>lines := (lines st)[j := l']\<rparr>" "Suc j" tag opc dirty b r' True]
    by auto
  show ?case unfolding ij
    using assms(5,6) jl
    by (subst hitLoop.simps)
      (simp add: rest Let_def shl_long_1 assms(2,3) block_size_bytes_def Line_clean_upd)
next
  case (Suc n)
  then have lt: "i < j" by simp
  then have il: "int i < num st" "i < length (lines st)" using assms(1,5) by linarith+
  have nm: "tagBit (lines st ! i) \<noteq> tag" using assms(7)[of i] lt il by simp
  have "hitLoop opc dirty tag b (i + 1) st r isIn = Some (st\<lparr>lines := (lines st)[j := (lines st ! j)
                \<lparr>lruCounter := opc,
                 dirtyBit := (if dirtyBit (lines st ! j) = 0 \<and> dirty > 0 then dirty
                              else dirtyBit (lines st ! j))\<rparr>]\<rparr>,
           r\<lparr>dirty_bytes := dirty_bytes r +
                (if dirtyBit (lines st ! j) = 0 \<and> dirty > 0 then block_size_bytes b else 0)\<rparr>,
           True)"
    using Suc.hyps(2) lt by (intro Suc.hyps(1)) auto
  then show ?case using il nm by (subst hitLoop.simps) auto
qed

lemma indexLRU_loop_inv:
  assumes len: "num st \<le> int (length (lines st))"
    and nonneg: "\<And>i. int i < num st \<Longrightarrow> 0 \<le> lruCounter (lines st ! i)"
  shows "int i \<le> num st \<Longrightarrow> first_min_upto st i idx \<Longrightarrow>
    \<exists>j. indexLRU_loop st i (lruCounter (lines st ! idx)) (int idx) = Some (int j) \<and>
        first_min_upto st (nat (num st)) j"
proof (induction "nat (num st) - i" arbitrary: i idx)
  case 0
  then have "i = nat (num st)" "\<not> int i < num st" by linarith+
  then show ?case using "0.prems"(2) by (subst indexLRU_loop.simps) auto
next
  case (Suc n)
  from Suc.hyps(2) have lt: "int i < num st" by linarith
  with len have il: "i < length (lines st)" by linarith
  from Suc.prems(2) have idx: "idx < i" by (simp add: first_min_upto_def)
  then have "int idx < num st" using lt by linarith
  then have mn: "\<not> lruCounter (lines st ! idx) < 0" using nonneg[of idx] by simp
  show ?case
  proof (cases "lruCounter (lines st ! i) < lruCounter (lines st ! idx)")
    case True
    have fm: "first_min_upto st (Suc i) i"
      using Suc.prems(2) True unfolding first_min_upto_def
      by (auto simp: less_Suc_eq)
    have "\<exists>j. indexLRU_loop st (Suc i) (lruCounter (lines st ! i)) (int i) = Some (int j) \<and>
        first_min_upto st (nat (num st)) j"
      using Suc.hyps(2) lt fm by (intro Suc.hyps(1)) auto
    then show ?thesis using lt il mn True by (subst indexLRU_loop.simps) simp
  next
    case False
    have fm: "first_min_upto st (Suc i) idx"
      using Suc.prems(2) False unfolding first_min_upto_def
      by (auto simp: less_Suc_eq)
    have "\<exists>j. indexLRU_loop st (Suc i) (lruCounter (lines st ! idx)) (int idx) = Some (int j) \<and>
        first_min_upto st (nat (num st)) j"
      using Suc.hyps(2) lt fm by (intro Suc.hyps(1)) auto
    then show ?thesis using lt il mn False by (subst indexLRU_loop.simps) simp
  qed
qed

lemma indexLRU_first_min:
  assumes "num st \<le> int (length (lines st))" "0 < num st"
    and "\<And>i. int i < num st \<Longrightarrow> 0 \<le> lruCounter (lines st ! i)"
  shows "\<exists>j. indexLRU st = Some (int j) \<and> first_min_upto st (nat (num st)) j"
proof -
  have fm: "first_min_upto st 1 0" by (simp add: first_min_upto_def)
  have "\<exists>j. indexLRU_loop st 1 (lruCounter (lines st ! 0)) (int 0) = Some (int j) \<and>
        first_min_upto st (nat (num st)) j"
    using assms fm by (intro indexLRU_loop_inv) auto
  moreover have "lines st \<noteq> []" using assms(1,2) by auto
  ultimately show ?thesis using assms(1,2)
    unfolding indexLRU_def by (subst indexLRU_loop.simps) simp
qed

lemma add_long_1: "0 \<le> x \<Longrightarrow> x < LONG_MAX \<Longrightarrow> add_long x 1 = Some (x + 1)"
  by (simp add: add_long_def LONG_MAX_def)

lemma add_long_0_1: "add_long 0 1 = Some 1"
  by (simp add: add_long_def LONG_MAX_def)

lemma set_ok_len: "set_ok E st \<Longrightarrow> num st \<le> int (length (lines st))"
  by (simp add: set_ok_def)

lemma cache_ok_set: "cache_ok c \<Longrightarrow> k < length (sets c) \<Longrightarrow> set_ok (cache_E c) (sets c ! k)"
  by (simp add: cache_ok_def)

lemma addToSet_hit:
  assumes ok: "cache_ok c" and k: "k < length (sets c)" and opc: "opCounter c < LONG_MAX"
    and b: "0 \<le> b" "b \<le> 62"
    and j: "int j < num (sets c ! k)" "tagBit (lines (sets c ! k) ! j) = tag"
  shows "addToSet r c k dirty tag b =
     Some (r\<lparr>dirty_bytes := dirty_bytes r +
                (if dirtyBit (lines (sets c ! k) ! j) = 0 \<and> dirty > 0
                 then block_size_bytes b else 0),
             hits := hits r + 1\<rparr>,
           c\<lparr>sets := (sets c)[k := (sets c ! k)
                  \<lparr>lines := (lines (sets c ! k))[j := (lines (sets c ! k) ! j)
                      \<lparr>lruCounter := opCounter c,
                       dirtyBit := (if dirtyBit (lines (sets c ! k) ! j) = 0 \<and> dirty > 0
                                    then dirty else dirtyBit (lines (sets c ! k) ! j))\<rparr>]\<rparr>],
             opCounter := opCounter c + 1\<rparr>)"
proof -
  define st where "st = sets c ! k"
  have sok: "set_ok (cache_E c) st" using ok k by (simp add: st_def cache_ok_set)
  have len: "num st \<le> int (length (lines st))" using sok by (rule set_ok_len)
  have uniq: "\<And>j'. j' \<noteq> j \<Longrightarrow> int j' < num st \<Longrightarrow> tagBit (lines st ! j') \<noteq> tag"
    using sok j unfolding set_ok_def st_def by blast
  have hl: "hitLoop (opCounter c) dirty tag b 0 st r False =
     Some (st\<lparr>lines := (lines st)[j := (lines st ! j)
                \<lparr>lruCounter := opCounter c,
                 dirtyBit := (if dirtyBit (lines st ! j) = 0 \<and> dirty > 0 then dirty
                              else dirtyBit (lines st ! j))\<rparr>]\<rparr>,
           r\<lparr>dirty_bytes := dirty_bytes r +
                (if dirtyBit (lines st ! j) = 0 \<and> dirty > 0 then block_size_bytes b else 0)\<rparr>,
           True)"
    using len b j uniq by (intro hitLoop_match) (auto simp: st_def)
  have ne: "\<not> setEmpty st" using j by (auto simp: setEmpty_def st_def)
  have opc0: "0 \<le> opCounter c" using ok by (simp add: cache_ok_def)
  show ?thesis
    unfolding addToSet_def st_def[symmetric] Let_def
    using k ne hl add_long_1[OF opc0 opc]
    by (simp add: addToSet_space_def addToSet_full_def)
qed

lemma addToSet_fill:
  assumes ok: "cache_ok c" and k: "k < length (sets c)" and opc: "opCounter c < LONG_MAX"
    and b: "0 \<le> b" "b \<le> 62"
    and nores: "\<And>i. int i < num (sets c ! k) \<Longrightarrow> tagBit (lines (sets c ! k) ! i) \<noteq> tag"
    and space: "num (sets c ! k) < cache_E c"
  shows "addToSet r c k dirty tag b =
     Some (r\<lparr>misses := misses r + 1,
             dirty_bytes := dirty_bytes r + (if dirty > 0 then block_size_bytes b else 0)\<rparr>,
           c\<lparr>sets := (sets c)[k := (sets c ! k)
                  \<lparr>lines := (lines (sets c ! k))[nat (num (sets c ! k)) :=
                             newLine dirty tag (opCounter c)],
                   num := num (sets c ! k) + 1\<rparr>],
             opCounter := opCounter c + 1\<rparr>)"
proof -
  define st where "st = sets c ! k"
  have sok: "set_ok (cache_E c) st" using ok k by (simp add: st_def cache_ok_set)
  have len: "num st \<le> int (length (lines st))" using sok by (rule set_ok_len)
  have E: "cache_E c \<le> INT_MAX" "0 < cache_E c" using ok by (simp_all add: cache_ok_def)
  have shape: "capacity st = cache_E c" "int (length (lines st)) = cache_E c" "0 \<le> num st"
    using sok by (simp_all add: set_ok_def)
  have numlt: "num st < LONG_MAX" using space E by (simp add: st_def INT_MAX_def LONG_MAX_def)
  have hl: "hitLoop (opCounter c) dirty tag b 0 st r False = Some (st, r, False)"
    using len nores by (intro hitLoop_nomatch) (auto simp: st_def)
  have opc0: "0 \<le> opCounter c" using ok by (simp add: cache_ok_def)
  have idx: "nat (num st) < length (lines st)" "0 < length (lines st)"
    using shape space E unfolding st_def by linarith+
  show ?thesis
    unfolding addToSet_def st_def[symmetric] Let_def
    using k hl add_long_1[OF opc0 opc] add_long_1[OF shape(3) numlt] shape space idx
    by (simp add: addToSet_space_def addToSet_empty_def setEmpty_def add_dirty_bytes_ok b st_def
        add_long_0_1)
qed

lemma addToSet_evict:
  assumes ok: "cache_ok c" and k: "k < length (sets c)" and opc: "opCounter c < LONG_MAX"
    and b: "0 \<le> b" "b \<le> 62"
    and nores: "\<And>i. int i < num (sets c ! k) \<Longrightarrow> tagBit (lines (sets c ! k) ! i) \<noteq> tag"
    and full: "num (sets c ! k) = cache_E c"
  shows "\<exists>j. first_min_upto (sets c ! k) (nat (num (sets c ! k))) j \<and>
     addToSet r c k dirty tag b =
     Some (r\<lparr>misses := misses r + 1, evictions := evictions r + 1,
             dirty_bytes := dirty_bytes r
               - (if dirtyBit (lines (sets c ! k) ! j) > 0 then block_size_bytes b else 0)
               + (if dirty > 0 then block_size_bytes b else 0),
             dirty_evictions := dirty_evictions r
               + (if dirtyBit (lines (sets c ! k) ! j) > 0 then block_size_bytes b else 0)\<rparr>,
           c\<lparr>sets := (sets c)[k := (sets c ! k)
                  \<lparr>lines := (lines (sets c ! k))[j := newLine dirty tag (opCounter c)]\<rparr>],
             opCounter := opCounter c + 1\<rparr>)"
proof -
  define st where "st = sets c ! k"
  have sok: "set_ok (cache_E c) st" using ok k by (simp add: st_def cache_ok_set)
  have len: "num st \<le> int (length (lines st))" using sok by (rule set_ok_len)
  have E: "cache_E c \<le> INT_MAX" "0 < cache_E c" using ok by (simp_all add: cache_ok_def)
  have shape: "capacity st = cache_E c" "int (length (lines st)) = cache_E c" "0 \<le> num st"
    using sok by (simp_all add: set_ok_def)
  have hl: "hitLoop (opCounter c) dirty tag b 0 st r False = Some (st, r, False)"
    using len nores by (intro hitLoop_nomatch) (auto simp: st_def)
  have opc0: "0 \<le> opCounter c" using ok by (simp add: cache_ok_def)
  have pos: "0 < num st" using full E by (simp add: st_def)
  have nn: "\<And>i. int i < num st \<Longrightarrow> 0 \<le> lruCounter (lines st ! i)"
    using sok by (simp add: set_ok_def)
  obtain j where j: "indexLRU st = Some (int j)" "first_min_upto st (nat (num st)) j"
    using indexLRU_first_min[OF len pos nn] by blast
  have "j < nat (num st)" using j(2) by (simp add: first_min_upto_def)
  then have jl: "j < length (lines st)" using len by linarith
  have nl: "(lines st ! j)\<lparr>dirtyBit := dirty, tagBit := tag, lruCounter := opCounter c\<rparr>
      = newLine dirty tag (opCounter c)"
    by (cases "lines st ! j") (simp add: newLine_def)
  have "addToSet r c k dirty tag b =
     Some (r\<lparr>misses := misses r + 1, evictions := evictions r + 1,
             dirty_bytes := dirty_bytes r
               - (if dirtyBit (lines st ! j) > 0 then block_size_bytes b else 0)
               + (if dirty > 0 then block_size_bytes b else 0),
             dirty_evictions := dirty_evictions r
               + (if dirtyBit (lines st ! j) > 0 then block_size_bytes b else 0)\<rparr>,
           c\<lparr>sets := (sets c)[k := st\<lparr>lines := (lines st)[j := newLine dirty tag (opCounter c)]\<rparr>],
             opCounter := opCounter c + 1\<rparr>)"
    unfolding addToSet_def st_def[symmetric] Let_def
    using k hl add_long_1[OF opc0 opc] shape full pos j(1) jl
    by (simp add: nl addToSet_full_def setEmpty_def add_dirty_bytes_ok b st_def[symmetric]
        shl_long_1 block_size_bytes_def add_dirty_bytes_def)
  then show ?thesis using j(2) unfolding st_def by blast
qed

lemma sum_list_upd:
  "k < length xs \<Longrightarrow> sum_list (xs[k := y]) = sum_list xs - xs ! k + (y::ulong)"
  by (induction xs arbitrary: k) (auto split: nat.splits)

lemma dirty_sum_set_update:
  assumes "j < nat (num st)" "nat (num st) \<le> length (lines st)"
  shows "dirty_sum_set b (st\<lparr>lines := (lines st)[j := l']\<rparr>) =
     dirty_sum_set b st
       - (if dirtyBit (lines st ! j) > 0 then block_size_bytes b else 0)
       + (if dirtyBit l' > 0 then block_size_bytes b else 0)"
proof -
  have "j < length (take (nat (num st)) (lines st))" using assms by simp
  then show ?thesis using assms
    by (simp add: dirty_sum_set_def resident_def take_update_swap map_update sum_list_upd)
qed

lemma dirty_sum_set_append:
  assumes "0 \<le> num st" "nat (num st) < length (lines st)"
  shows "dirty_sum_set b (st\<lparr>lines := (lines st)[nat (num st) := l'], num := num st + 1\<rparr>) =
     dirty_sum_set b st + (if dirtyBit l' > 0 then block_size_bytes b else 0)"
proof -
  have "nat (num st + 1) = Suc (nat (num st))" using assms(1) by simp
  then show ?thesis using assms
    by (simp add: dirty_sum_set_def resident_def take_Suc_conv_app_nth)
qed

lemma dirty_sum_update:
  "k < length (sets c) \<Longrightarrow>
   dirty_sum b (c\<lparr>sets := (sets c)[k := st'], opCounter := n\<rparr>) =
     dirty_sum b c - dirty_sum_set b (sets c ! k) + dirty_sum_set b st'"
  by (simp add: dirty_sum_def map_update sum_list_upd)

lemma resident_tags_iff:
  assumes "0 \<le> num st" "num st \<le> int (length (lines st))"
  shows "tag \<notin> tagBit ` set (resident st) \<longleftrightarrow>
         (\<forall>i. int i < num st \<longrightarrow> tagBit (lines st ! i) \<noteq> tag)"
proof -
  have len: "length (resident st) = nat (num st)" using assms by (simp add: resident_def)
  have nth: "\<And>i. i < nat (num st) \<Longrightarrow> resident st ! i = lines st ! i"
    by (simp add: resident_def)
  have "tag \<in> tagBit ` set (resident st) \<longleftrightarrow> (\<exists>i<nat (num st). tagBit (lines st ! i) = tag)"
    unfolding in_set_conv_nth image_iff len using nth by (metis len nth_mem in_set_conv_nth)
  moreover have "\<And>i. i < nat (num st) \<longleftrightarrow> int i < num st" using assms(1) by linarith
  ultimately show ?thesis by auto
qed

lemma set_ok_hit:
  assumes "set_ok E st" "int j < num st" "0 \<le> opc" "d = 0 \<or> d = 1"
  shows "set_ok E (st\<lparr>lines := (lines st)[j := (lines st ! j)\<lparr>lruCounter := opc, dirtyBit := d\<rparr>]\<rparr>)"
  using assms unfolding set_ok_def
  by (auto simp: nth_list_update)

lemma set_ok_evict:
  assumes "set_ok E st" "int j < num st" "0 \<le> opc" "d = 0 \<or> d = 1"
    and "\<And>i. int i < num st \<Longrightarrow> tagBit (lines st ! i) \<noteq> tag"
  shows "set_ok E (st\<lparr>lines := (lines st)[j := newLine d tag opc]\<rparr>)"
  using assms unfolding set_ok_def
  by (auto simp: nth_list_update)

lemma set_ok_fill:
  assumes "set_ok E st" "num st < E" "0 \<le> opc" "d = 0 \<or> d = 1"
    and "\<And>i. int i < num st \<Longrightarrow> tagBit (lines st ! i) \<noteq> tag"
  shows "set_ok E (st\<lparr>lines := (lines st)[nat (num st) := newLine d tag opc],
                      num := num st + 1\<rparr>)"
proof -
  have eq: "\<And>i. int i \<le> num st \<longleftrightarrow> int i < num st \<or> i = nat (num st)"
    using assms(1) unfolding set_ok_def by auto
  have nl: "nat (num st) < length (lines st)" using assms(1,2) unfolding set_ok_def by linarith
  show ?thesis using assms nl unfolding set_ok_def
    by (auto simp: nth_list_update eq)
qed

lemma cache_ok_update:
  assumes "cache_ok c" "k < length (sets c)" "set_ok (cache_E c) st'"
  shows "cache_ok (c\<lparr>sets := (sets c)[k := st'], opCounter := opCounter c + 1\<rparr>)"
  using assms unfolding cache_ok_def by (auto simp: nth_list_update)

lemma uint_ulong_Suc: "uint (x::ulong) < 2 ^ 63 \<Longrightarrow> uint (x + 1) = uint x + 1"
proof -
  assume "uint x < 2 ^ 63"
  then have "uint x + uint (1::ulong) < 2 ^ LENGTH(64)" by simp
  then show ?thesis by (simp only: uint_add_lem[THEN iffD1] unsigned_1)
qed

lemma state_inv_step:
  assumes inv: "state_inv s E b r c" and k: "k < length (sets c)"
    and opc: "opCounter c < LONG_MAX"
    and sok: "set_ok (cache_E c) st'"
    and dirty: "dirty_bytes r' + dirty_sum_set b (sets c ! k) = dirty_bytes r + dirty_sum_set b st'"
    and stats: "(hits r' = hits r + 1 \<and> misses r' = misses r \<and> evictions r' = evictions r) \<or>
       (hits r' = hits r \<and> misses r' = misses r + 1 \<and>
        (evictions r' = evictions r \<or> evictions r' = evictions r + 1))"
  shows "state_inv s E b r' (c\<lparr>sets := (sets c)[k := st'], opCounter := opCounter c + 1\<rparr>)"
proof -
  have ok: "cache_ok c" and db: "dirty_bytes r = dirty_sum b c"
    and cnt: "uint (hits r) + uint (misses r) = opCounter c"
    and ev: "uint (evictions r) \<le> uint (misses r)"
    using inv by (simp_all add: state_inv_def)
  have p63: "(2::int) ^ 63 = 9223372036854775808" by simp
  have nn: "0 \<le> uint (hits r)" "0 \<le> uint (misses r)" "0 \<le> uint (evictions r)" by simp_all
  have small: "uint (hits r) < 2 ^ 63" "uint (misses r) < 2 ^ 63" "uint (evictions r) < 2 ^ 63"
    using cnt ev opc nn unfolding p63 LONG_MAX_def by linarith+
  have ok': "cache_ok (c\<lparr>sets := (sets c)[k := st'], opCounter := opCounter c + 1\<rparr>)"
    using ok k sok by (rule cache_ok_update)
  have db': "dirty_bytes r' =
      dirty_sum b (c\<lparr>sets := (sets c)[k := st'], opCounter := opCounter c + 1\<rparr>)"
    using dirty db by (simp add: dirty_sum_update[OF k] algebra_simps)
  have cnt': "uint (hits r') + uint (misses r') = opCounter c + 1"
    using stats cnt small by (auto simp: uint_ulong_Suc)
  have ev': "uint (evictions r') \<le> uint (misses r')"
    using stats ev small by (auto simp: uint_ulong_Suc)
  show ?thesis
    using inv ok' db' cnt' ev' opc by (simp add: state_inv_def)
qed

lemma addToSet_inv:
  assumes inv: "state_inv s E b r c" and k: "k < length (sets c)"
    and opc: "opCounter c < LONG_MAX" and b: "0 \<le> b" "b \<le> 62"
    and d: "dirty = 0 \<or> dirty = 1"
  shows "\<exists>r' c'. addToSet r c k dirty tag b = Some (r', c') \<and> state_inv s E b r' c' \<and>
           opCounter c' = opCounter c + 1"
proof -
  define st where "st = sets c ! k"
  have ok: "cache_ok c" using inv by (simp add: state_inv_def)
  have opc0: "0 \<le> opCounter c" using ok by (simp add: cache_ok_def)
  have sok: "set_ok (cache_E c) st" using ok k by (simp add: st_def cache_ok_set)
  have shape: "0 \<le> num st" "num st \<le> cache_E c" "int (length (lines st)) = cache_E c"
    using sok by (simp_all add: set_ok_def)
  consider (hit) j where "int j < num st" "tagBit (lines st ! j) = tag"
    | (fill) "\<And>i. int i < num st \<Longrightarrow> tagBit (lines st ! i) \<noteq> tag" "num st < cache_E c"
    | (evict) "\<And>i. int i < num st \<Longrightarrow> tagBit (lines st ! i) \<noteq> tag" "num st = cache_E c"
    using shape(2) by fastforce
  then show ?thesis
  proof cases
    case hit
    let ?d = "if dirtyBit (lines st ! j) = 0 \<and> dirty > 0 then dirty else dirtyBit (lines st ! j)"
    let ?st' = "st\<lparr>lines := (lines st)[j := (lines st ! j)\<lparr>lruCounter := opCounter c, dirtyBit := ?d\<rparr>]\<rparr>"
    let ?r' = "r\<lparr>dirty_bytes := dirty_bytes r +
                (if dirtyBit (lines st ! j) = 0 \<and> dirty > 0 then block_size_bytes b else 0),
             hits := hits r + 1\<rparr>"
    have eq: "addToSet r c k dirty tag b =
        Some (?r', c\<lparr>sets := (sets c)[k := ?st'], opCounter := opCounter c + 1\<rparr>)"
      using addToSet_hit[OF ok k opc b, of j tag r dirty] hit by (simp add: st_def)
    have dj: "dirtyBit (lines st ! j) = 0 \<or> dirtyBit (lines st ! j) = 1"
      using sok hit(1) by (simp add: set_ok_def)
    have d': "?d = 0 \<or> ?d = 1" using d dj by auto
    have sok': "set_ok (cache_E c) ?st'" using sok hit(1) opc0 d' by (rule set_ok_hit)
    have jn: "j < nat (num st)" "nat (num st) \<le> length (lines st)"
      using hit(1) shape by linarith+
    have ds: "dirty_bytes ?r' + dirty_sum_set b (sets c ! k) = dirty_bytes r + dirty_sum_set b ?st'"
      using dj d by (auto simp: dirty_sum_set_update[OF jn] st_def[symmetric])
    have "state_inv s E b ?r' (c\<lparr>sets := (sets c)[k := ?st'], opCounter := opCounter c + 1\<rparr>)"
      using inv k opc sok' ds by (rule state_inv_step) simp
    then show ?thesis using eq by simp
  next
    case fill
    let ?st' = "st\<lparr>lines := (lines st)[nat (num st) := newLine dirty tag (opCounter c)],
                   num := num st + 1\<rparr>"
    let ?r' = "r\<lparr>misses := misses r + 1,
             dirty_bytes := dirty_bytes r + (if dirty > 0 then block_size_bytes b else 0)\<rparr>"
    have eq: "addToSet r c k dirty tag b =
        Some (?r', c\<lparr>sets := (sets c)[k := ?st'], opCounter := opCounter c + 1\<rparr>)"
      using addToSet_fill[OF ok k opc b, of tag r dirty] fill by (simp add: st_def)
    have sok': "set_ok (cache_E c) ?st'" using sok fill(2) opc0 d fill(1) by (rule set_ok_fill)
    have nl: "nat (num st) < length (lines st)" using shape fill(2) by linarith
    have ds: "dirty_bytes ?r' + dirty_sum_set b (sets c ! k) = dirty_bytes r + dirty_sum_set b ?st'"
      by (simp add: dirty_sum_set_append[OF shape(1) nl] st_def[symmetric])
    have "state_inv s E b ?r' (c\<lparr>sets := (sets c)[k := ?st'], opCounter := opCounter c + 1\<rparr>)"
      using inv k opc sok' ds by (rule state_inv_step) simp
    then show ?thesis using eq by simp
  next
    case evict
    obtain j where j: "first_min_upto st (nat (num st)) j"
      and eq: "addToSet r c k dirty tag b =
     Some (r\<lparr>misses := misses r + 1, evictions := evictions r + 1,
             dirty_bytes := dirty_bytes r
               - (if dirtyBit (lines st ! j) > 0 then block_size_bytes b else 0)
               + (if dirty > 0 then block_size_bytes b else 0),
             dirty_evictions := dirty_evictions r
               + (if dirtyBit (lines st ! j) > 0 then block_size_bytes b else 0)\<rparr>,
           c\<lparr>sets := (sets c)[k := st\<lparr>lines := (lines st)[j := newLine dirty tag (opCounter c)]\<rparr>],
             opCounter := opCounter c + 1\<rparr>)"
      using addToSet_evict[OF ok k opc b, of tag r dirty] evict unfolding st_def by blast
    let ?st' = "st\<lparr>lines := (lines st)[j := newLine dirty tag (opCounter c)]\<rparr>"
    let ?r' = "r\<lparr>misses := misses r + 1, evictions := evictions r + 1,
             dirty_bytes := dirty_bytes r
               - (if dirtyBit (lines st ! j) > 0 then block_size_bytes b else 0)
               + (if dirty > 0 then block_size_bytes b else 0),
             dirty_evictions := dirty_evictions r
               + (if dirtyBit (lines st ! j) > 0 then block_size_bytes b else 0)\<rparr>"
    have jn: "j < nat (num st)" "nat (num st) \<le> length (lines st)"
      using j shape by (simp_all add: first_min_upto_def)
    then have jn': "int j < num st" by linarith
    have sok': "set_ok (cache_E c) ?st'" using sok jn' opc0 d evict(1) by (rule set_ok_evict)
    have ds: "dirty_bytes ?r' + dirty_sum_set b (sets c ! k) = dirty_bytes r + dirty_sum_set b ?st'"
      by (simp add: dirty_sum_set_update[OF jn] st_def[symmetric])
    have "state_inv s E b ?r' (c\<lparr>sets := (sets c)[k := ?st'], opCounter := opCounter c + 1\<rparr>)"
      using inv k opc sok' ds by (rule state_inv_step) simp
    then show ?thesis using eq by simp
  qed
qed

lemma drop_push_ulong:
  "n < 64 \<Longrightarrow> drop_bit n (push_bit n (x::ulong)) = x AND mask (64 - n)"
  by (rule bit_word_eqI) (auto simp: bit_simps)

lemma decompose_defined:
  assumes "0 \<le> s" "0 \<le> b" "b + s < 64"
  shows "decompose s b a =
     Some (if s = 0 then 0 else drop_bit (nat b) a AND mask (nat s), drop_bit (nat (b + s)) a)"
proof (cases "s = 0")
  case True
  then show ?thesis using assms by (simp add: decompose_def shr_ulong_def)
next
  case False
  then have s: "0 < s" "s < 64" "nat (64 - s) < 64" "64 - nat (64 - s) = nat s"
    using assms by linarith+
  show ?thesis using assms s False
    by (simp add: decompose_def shr_ulong_def shl_ulong_def drop_push_ulong)
qed

lemma decompose_index:
  assumes "0 \<le> s" "0 \<le> b" "b + s < 64" "decompose s b a = Some (setIdx, tag)"
  shows "unat setIdx < 2 ^ nat s"
proof (cases "s = 0")
  case True
  then show ?thesis using assms by (simp add: decompose_defined)
next
  case False
  then have "setIdx = take_bit (nat s) (drop_bit (nat b) a)"
    using assms by (simp add: decompose_defined take_bit_eq_mask)
  then show ?thesis by (simp add: unsigned_take_bit_eq)
qed

lemma createCache_inv:
  assumes "valid_config s E b"
  shows "\<exists>c0. createCache s E = Some c0 \<and> state_inv s E b init_results c0 \<and> opCounter c0 = 0"
proof -
  have v: "0 \<le> s" "s \<le> 30" "0 < E" "E \<le> INT_MAX"
    using assms by (simp_all add: valid_config_def)
  have sh: "shl_long 1 s = Some (2 ^ nat s)" using v by (intro shl_long_1) auto
  have "nat s \<le> 30" using v by simp
  then have "(2::int) ^ nat s \<le> 2 ^ 30" by (intro power_increasing) simp_all
  then have le: "(2::int) ^ nat s \<le> INT_MAX" by (simp add: INT_MAX_def)
  let ?st = "\<lparr>num = 0, capacity = E, lines = replicate (nat E) (newLine 0 0 0)\<rparr>"
  let ?c = "\<lparr>cache_s = 2 ^ nat s, cache_E = E, opCounter = 0, sets = replicate (nat (2 ^ nat s)) ?st\<rparr>"
  have cc: "createCache s E = Some ?c"
    using sh le v by (simp add: createCache_def newSet_def)
  have sok: "set_ok E ?st" using v by (simp add: set_ok_def)
  have n2: "nat ((2::int) ^ nat s) = 2 ^ nat s" by (simp add: nat_power_eq)
  have ok: "cache_ok ?c" using v sok by (simp add: cache_ok_def n2)
  have ds: "dirty_sum_set b ?st = 0" by (simp add: dirty_sum_set_def resident_def)
  have "sum_list (replicate n (0::ulong)) = 0" for n by (induction n) auto
  then have d0: "dirty_sum b ?c = 0" by (simp add: dirty_sum_def ds)
  have "state_inv s E b init_results ?c"
    using ok d0 by (simp add: state_inv_def init_results_def n2 LONG_MAX_def)
  then show ?thesis using cc by simp
qed

lemma access_inv:
  assumes v: "valid_config s E b" and inv: "state_inv s E b r c"
    and opc: "opCounter c < LONG_MAX"
  shows "\<exists>r' c'. access s b (r, c) rcd = Some (r', c') \<and> state_inv s E b r' c' \<and>
           opCounter c' = opCounter c + 1"
proof -
  obtain oper addr sz where rcd: "rcd = (oper, addr, sz)" by (cases rcd) auto
  have vs: "0 \<le> s" "0 \<le> b" "b + s < 64" "b \<le> 62" using v by (simp_all add: valid_config_def)
  obtain setIdx tag where dec: "decompose s b addr = Some (setIdx, tag)"
    using decompose_defined[OF vs(1-3)] by simp
  have "unat setIdx < 2 ^ nat s" using vs(1-3) dec by (rule decompose_index)
  then have k: "unat setIdx < length (sets c)" using inv by (simp add: state_inv_def)
  show ?thesis
  proof (cases "oper = CHR ''S''")
    case True
    then show ?thesis using addToSet_inv[OF inv k opc vs(2,4), of 1 "long_of_ulong tag"] dec rcd
      by (simp add: access_def)
  next
    case False
    then show ?thesis using addToSet_inv[OF inv k opc vs(2,4), of 0 "long_of_ulong tag"] dec rcd
      by (simp add: access_def)
  qed
qed

lemma main_loop_inv:
  assumes v: "valid_config s E b"
  shows "state_inv s E b r c \<Longrightarrow> opCounter c + int (length trace) \<le> LONG_MAX \<Longrightarrow>
    \<exists>r' c'. main_loop s b (r, c) trace = Some (r', c') \<and> state_inv s E b r' c' \<and>
       opCounter c' = opCounter c + int (length trace)"
proof (induction trace arbitrary: r c)
  case Nil
  then show ?case by simp
next
  case (Cons rcd rest)
  have "opCounter c < LONG_MAX" using Cons.prems(2) by simp
  then obtain r1 c1 where a: "access s b (r, c) rcd = Some (r1, c1)"
    and i1: "state_inv s E b r1 c1" and o1: "opCounter c1 = opCounter c + 1"
    using access_inv[OF v Cons.prems(1)] by blast
  have "opCounter c1 + int (length rest) \<le> LONG_MAX" using o1 Cons.prems(2) by simp
  from Cons.IH[OF i1 this] obtain r' c' where
    "main_loop s b (r1, c1) rest = Some (r', c')" "state_inv s E b r' c'"
    "opCounter c' = opCounter c1 + int (length rest)" by blast
  then show ?case using a o1 by simp
qed

lemma main_run_inv:
  assumes v: "valid_config s E b" and len: "int (length trace) \<le> LONG_MAX"
  shows "\<exists>r c. main_run s E b trace = Some (r, c) \<and> state_inv s E b r c \<and>
       opCounter c = int (length trace)"
proof -
  obtain c0 where c0: "createCache s E = Some c0" "state_inv s E b init_results c0"
    "opCounter c0 = 0" using createCache_inv[OF v] by blast
  have "opCounter c0 + int (length trace) \<le> LONG_MAX" using c0(3) len by simp
  from main_loop_inv[OF v c0(2) this] show ?thesis using c0 by (simp add: main_run_def)
qed

lemma main_loop_append:
  "main_loop s b rc (xs @ ys) =
     (case main_loop s b rc xs of None \<Rightarrow> None | Some rc' \<Rightarrow> main_loop s b rc' ys)"
  by (induction xs arbitrary: rc) (auto split: option.splits)

lemma main_run_snoc:
  "main_run s E b (trace @ [rcd]) =
     (case main_run s E b trace of None \<Rightarrow> None | Some rc \<Rightarrow> access s b rc rcd)"
  by (auto simp: main_run_def main_loop_append split: option.splits)

lemma main_run_append:
  "main_run s E b (xs @ ys) =
     (case main_run s E b xs of None \<Rightarrow> None | Some rc \<Rightarrow> main_loop s b rc ys)"
  by (auto simp: main_run_def main_loop_append split: option.splits)

lemma addToSet_shape:
  assumes ok: "cache_ok c" and k: "k < length (sets c)" and opc: "opCounter c < LONG_MAX"
    and b: "0 \<le> b" "b \<le> 62"
  shows "\<exists>r' j l' n'.
     addToSet r c k dirty tag b =
       Some (r', c\<lparr>sets := (sets c)[k := (sets c ! k)
                        \<lparr>lines := (lines (sets c ! k))[j := l'], num := n'\<rparr>],
                   opCounter := opCounter c + 1\<rparr>) \<and>
     j < length (lines (sets c ! k)) \<and> int j < n' \<and>
     tagBit l' = tag \<and> lruCounter l' = opCounter c \<and>
     n' = (if (\<exists>i. int i < num (sets c ! k) \<and> tagBit (lines (sets c ! k) ! i) = tag)
               \<or> num (sets c ! k) = cache_E c
           then num (sets c ! k) else num (sets c ! k) + 1) \<and>
     hits r' = (if \<exists>i. int i < num (sets c ! k) \<and> tagBit (lines (sets c ! k) ! i) = tag
                then hits r + 1 else hits r) \<and>
     misses r' = (if \<exists>i. int i < num (sets c ! k) \<and> tagBit (lines (sets c ! k) ! i) = tag
                  then misses r else misses r + 1) \<and>
     evictions r' = (if (\<forall>i. int i < num (sets c ! k) \<longrightarrow> tagBit (lines (sets c ! k) ! i) \<noteq> tag)
                        \<and> num (sets c ! k) = cache_E c
                     then evictions r + 1 else evictions r)"
proof -
  define st where "st = sets c ! k"
  have sok: "set_ok (cache_E c) st" using ok k by (simp add: st_def cache_ok_set)
  have shape: "0 \<le> num st" "num st \<le> cache_E c" "int (length (lines st)) = cache_E c"
    using sok by (simp_all add: set_ok_def)
  consider (hit) j where "int j < num st" "tagBit (lines st ! j) = tag"
    | (fill) "\<And>i. int i < num st \<Longrightarrow> tagBit (lines st ! i) \<noteq> tag" "num st < cache_E c"
    | (evict) "\<And>i. int i < num st \<Longrightarrow> tagBit (lines st ! i) \<noteq> tag" "num st = cache_E c"
    using shape(2) by fastforce
  then show ?thesis
  proof cases
    case hit
    have ex: "\<exists>i. int i < num st \<and> tagBit (lines st ! i) = tag" using hit by blast
    have jl: "j < length (lines st)" using hit(1) shape by linarith
    define l' where "l' = (lines st ! j)\<lparr>lruCounter := opCounter c,
           dirtyBit := (if dirtyBit (lines st ! j) = 0 \<and> dirty > 0 then dirty
                        else dirtyBit (lines st ! j))\<rparr>"
    define r' where "r' = r\<lparr>dirty_bytes := dirty_bytes r +
                (if dirtyBit (lines st ! j) = 0 \<and> dirty > 0 then block_size_bytes b else 0),
             hits := hits r + 1\<rparr>"
    have eq: "addToSet r c k dirty tag b =
       Some (r', c\<lparr>sets := (sets c)[k := st\<lparr>lines := (lines st)[j := l'], num := num st\<rparr>],
                   opCounter := opCounter c + 1\<rparr>)"
      using addToSet_hit[OF ok k opc b, of j tag r dirty] hit
      unfolding st_def[symmetric] l'_def r'_def by simp
    have l': "tagBit l' = tag" "lruCounter l' = opCounter c"
      using hit(2) by (simp_all add: l'_def)
    have r': "hits r' = hits r + 1" "misses r' = misses r" "evictions r' = evictions r"
      by (simp_all add: r'_def)
    show ?thesis
      unfolding st_def[symmetric]
      by (rule exI[of _ r'], rule exI[of _ j], rule exI[of _ l'], rule exI[of _ "num st"])
        (use eq l' r' ex jl hit(1) in simp)
  next
    case fill
    have nex: "\<not> (\<exists>i. int i < num st \<and> tagBit (lines st ! i) = tag)" using fill(1) by blast
    have jl: "nat (num st) < length (lines st)" using fill(2) shape by linarith
    define r' where "r' = r\<lparr>misses := misses r + 1,
             dirty_bytes := dirty_bytes r + (if dirty > 0 then block_size_bytes b else 0)\<rparr>"
    have eq: "addToSet r c k dirty tag b =
       Some (r', c\<lparr>sets := (sets c)[k := st\<lparr>lines := (lines st)[nat (num st) :=
                        newLine dirty tag (opCounter c)], num := num st + 1\<rparr>],
                   opCounter := opCounter c + 1\<rparr>)"
      using addToSet_fill[OF ok k opc b, of tag r dirty] fill
      unfolding st_def[symmetric] r'_def by simp
    have r': "hits r' = hits r" "misses r' = misses r + 1" "evictions r' = evictions r"
      by (simp_all add: r'_def)
    show ?thesis
      unfolding st_def[symmetric]
      by (rule exI[of _ r'], rule exI[of _ "nat (num st)"],
          rule exI[of _ "newLine dirty tag (opCounter c)"], rule exI[of _ "num st + 1"])
        (use eq r' nex jl fill(2) shape(1) in simp)
  next
    case evict
    have nex: "\<not> (\<exists>i. int i < num st \<and> tagBit (lines st ! i) = tag)" using evict(1) by blast
    have all: "\<forall>i. int i < num st \<longrightarrow> tagBit (lines st ! i) \<noteq> tag" using evict(1) by blast
    obtain j r' where j: "first_min_upto st (nat (num st)) j"
      and r'_def: "r' = r\<lparr>misses := misses r + 1, evictions := evictions r + 1,
             dirty_bytes := dirty_bytes r
               - (if dirtyBit (lines st ! j) > 0 then block_size_bytes b else 0)
               + (if dirty > 0 then block_size_bytes b else 0),
             dirty_evictions := dirty_evictions r
               + (if dirtyBit (lines st ! j) > 0 then block_size_bytes b else 0)\<rparr>"
      and eq0: "addToSet r c k dirty tag b =
     Some (r', c\<lparr>sets := (sets c)[k := st\<lparr>lines := (lines st)[j := newLine dirty tag (opCounter c)]\<rparr>],
             opCounter := opCounter c + 1\<rparr>)"
      using addToSet_evict[OF ok k opc b, of tag r dirty] evict unfolding st_def by blast
    have eq: "addToSet r c k dirty tag b =
     Some (r', c\<lparr>sets := (sets c)[k := st\<lparr>lines := (lines st)[j := newLine dirty tag (opCounter c)],
                 num := num st\<rparr>],
             opCounter := opCounter c + 1\<rparr>)"
      using eq0 by simp
    have jn: "j < nat (num st)" using j by (simp add: first_min_upto_def)
    then have jl: "j < length (lines st)" "int j < num st" using shape by linarith+
    have r': "hits r' = hits r" "misses r' = misses r + 1" "evictions r' = evictions r + 1"
      by (simp_all add: r'_def)
    show ?thesis
      unfolding st_def[symmetric]
      by (rule exI[of _ r'], rule exI[of _ j],
          rule exI[of _ "newLine dirty tag (opCounter c)"], rule exI[of _ "num st"])
        (use eq r' nex all jl evict(2) in simp)
  qed
qed

lemma reach_inv:
  assumes "valid_config s E b" "int (length trace) \<le> LONG_MAX"
    and "main_run s E b trace = Some (r, c)"
  shows "state_inv s E b r c" "opCounter c = int (length trace)"
  using main_run_inv[OF assms(1,2)] assms(3) by auto

lemma reach_ok:
  assumes "valid_config s E b" "int (length trace) < LONG_MAX"
    and "main_run s E b trace = Some (r, c)"
  shows "cache_ok c" "cache_E c = E" "opCounter c < LONG_MAX" "0 \<le> b" "b \<le> 62"
    "opCounter c = int (length trace)"
proof -
  have "int (length trace) \<le> LONG_MAX" using assms(2) by simp
  from reach_inv[OF assms(1) this assms(3)] assms(1,2)
  show "cache_ok c" "cache_E c = E" "opCounter c < LONG_MAX" "0 \<le> b" "b \<le> 62"
    "opCounter c = int (length trace)"
    by (simp_all add: state_inv_def valid_config_def)
qed

lemma access_step:
  assumes v: "valid_config s E b" and inv: "state_inv s E b r c"
    and opc: "opCounter c < LONG_MAX"
  shows "\<exists>setIdx tag r' c'.
     decompose s b addr = Some (setIdx, tag) \<and> unat setIdx < length (sets c) \<and>
     access s b (r, c) (oper, addr, sz) = Some (r', c') \<and>
     state_inv s E b r' c' \<and> opCounter c' = opCounter c + 1 \<and>
     length (sets c') = length (sets c) \<and>
     (\<forall>k<length (sets c). num (sets c ! k) \<le> num (sets c' ! k)) \<and>
     hits r' = (if long_of_ulong tag \<in> tagBit ` set (resident (sets c ! unat setIdx))
                then hits r + 1 else hits r) \<and>
     misses r' = (if long_of_ulong tag \<in> tagBit ` set (resident (sets c ! unat setIdx))
                  then misses r else misses r + 1) \<and>
     evictions r' = (if long_of_ulong tag \<notin> tagBit ` set (resident (sets c ! unat setIdx))
                        \<and> num (sets c ! unat setIdx) = E
                     then evictions r + 1 else evictions r)"
proof -
  have vs: "0 \<le> s" "0 \<le> b" "b + s < 64" "b \<le> 62" using v by (simp_all add: valid_config_def)
  obtain setIdx tag where dec: "decompose s b addr = Some (setIdx, tag)"
    using decompose_defined[OF vs(1-3)] by simp
  have "unat setIdx < 2 ^ nat s" using vs(1-3) dec by (rule decompose_index)
  then have k: "unat setIdx < length (sets c)" using inv by (simp add: state_inv_def)
  define d :: long where "d = (if oper = CHR ''S'' then 1 else 0)"
  define t where "t = long_of_ulong tag"
  define k' where "k' = unat setIdx"
  have d: "d = 0 \<or> d = 1" by (simp add: d_def)
  have acc: "access s b (r, c) (oper, addr, sz) = addToSet r c k' d t b"
    using dec by (simp add: access_def d_def t_def k'_def)
  have ok: "cache_ok c" and E: "cache_E c = E" using inv by (simp_all add: state_inv_def)
  have k'': "k' < length (sets c)" using k by (simp add: k'_def)
  have sok: "set_ok E (sets c ! k')" using ok E k'' cache_ok_set by blast
  then have "0 \<le> num (sets c ! k')" "num (sets c ! k') \<le> int (length (lines (sets c ! k')))"
    by (simp_all add: set_ok_def)
  note res = resident_tags_iff[OF this, of t]
  from addToSet_shape[OF ok k'' opc vs(2,4), of r d t]
  obtain r' j l' n' where
    eq: "addToSet r c k' d t b =
       Some (r', c\<lparr>sets := (sets c)[k' := (sets c ! k')
                        \<lparr>lines := (lines (sets c ! k'))[j := l'], num := n'\<rparr>],
                   opCounter := opCounter c + 1\<rparr>)"
    and n': "n' = (if (\<exists>i. int i < num (sets c ! k') \<and> tagBit (lines (sets c ! k') ! i) = t)
               \<or> num (sets c ! k') = cache_E c
           then num (sets c ! k') else num (sets c ! k') + 1)"
    and h: "hits r' = (if \<exists>i. int i < num (sets c ! k') \<and> tagBit (lines (sets c ! k') ! i) = t
                then hits r + 1 else hits r)"
    and m: "misses r' = (if \<exists>i. int i < num (sets c ! k') \<and> tagBit (lines (sets c ! k') ! i) = t
                  then misses r else misses r + 1)"
    and e: "evictions r' = (if (\<forall>i. int i < num (sets c ! k') \<longrightarrow> tagBit (lines (sets c ! k') ! i) \<noteq> t)
                        \<and> num (sets c ! k') = cache_E c
                     then evictions r + 1 else evictions r)"
    by blast
  define c' where "c' = c\<lparr>sets := (sets c)[k' := (sets c ! k')
                        \<lparr>lines := (lines (sets c ! k'))[j := l'], num := n'\<rparr>],
                   opCounter := opCounter c + 1\<rparr>"
  have inv': "state_inv s E b r' c'"
    using addToSet_inv[OF inv k'' opc vs(2,4) d, of t] eq by (simp add: c'_def)
  have nge: "num (sets c ! k') \<le> n'" using n' by (simp split: if_splits)
  have mono: "\<forall>k<length (sets c). num (sets c ! k) \<le> num (sets c' ! k)"
  proof (intro allI impI)
    fix k assume "k < length (sets c)"
    then show "num (sets c ! k) \<le> num (sets c' ! k)"
      using nge by (cases "k = k'") (simp_all add: c'_def)
  qed
  have h': "hits r' = (if t \<in> tagBit ` set (resident (sets c ! k')) then hits r + 1 else hits r)"
    using h res by auto
  have m': "misses r' = (if t \<in> tagBit ` set (resident (sets c ! k')) then misses r else misses r + 1)"
    using m res by auto
  have e': "evictions r' = (if t \<notin> tagBit ` set (resident (sets c ! k')) \<and> num (sets c ! k') = E
                     then evictions r + 1 else evictions r)"
    using e res E by auto
  have "decompose s b addr = Some (setIdx, tag) \<and> unat setIdx < length (sets c) \<and>
     access s b (r, c) (oper, addr, sz) = Some (r', c') \<and>
     state_inv s E b r' c' \<and> opCounter c' = opCounter c + 1 \<and>
     length (sets c') = length (sets c) \<and>
     (\<forall>k<length (sets c). num (sets c ! k) \<le> num (sets c' ! k))"
    using dec k acc eq inv' mono by (simp add: c'_def)
  then show ?thesis using h' m' e' unfolding t_def k'_def by blast
qed

lemma set_ok_all:
  assumes "state_inv s E b r c"
  shows "\<forall>st\<in>set (sets c). 0 \<le> num st \<and> num st \<le> E"
proof
  fix st assume "st \<in> set (sets c)"
  then obtain k where "k < length (sets c)" "st = sets c ! k" by (auto simp: in_set_conv_nth)
  then have "set_ok E st" using assms cache_ok_set by (auto simp: state_inv_def)
  then show "0 \<le> num st \<and> num st \<le> E" by (simp add: set_ok_def)
qed

lemma ulong_Suc_neq: "(x::ulong) + 1 \<noteq> x"
  by simp

lemma run_and_access:
  assumes v: "valid_config s E b" and len: "int (length trace) < LONG_MAX"
  obtains r c setIdx tag r' c' where
    "main_run s E b trace = Some (r, c)" "state_inv s E b r c" "opCounter c = int (length trace)"
    "decompose s b addr = Some (setIdx, tag)" "unat setIdx < length (sets c)"
    "main_run s E b (trace @ [(oper, addr, sz)]) = Some (r', c')"
    "state_inv s E b r' c'" "opCounter c' = opCounter c + 1"
    "length (sets c') = length (sets c)"
    "\<forall>k<length (sets c). num (sets c ! k) \<le> num (sets c' ! k)"
    "hits r' = (if long_of_ulong tag \<in> tagBit ` set (resident (sets c ! unat setIdx))
                then hits r + 1 else hits r)"
    "misses r' = (if long_of_ulong tag \<in> tagBit ` set (resident (sets c ! unat setIdx))
                  then misses r else misses r + 1)"
    "evictions r' = (if long_of_ulong tag \<notin> tagBit ` set (resident (sets c ! unat setIdx))
                        \<and> num (sets c ! unat setIdx) = E
                     then evictions r + 1 else evictions r)"
proof -
  have "int (length trace) \<le> LONG_MAX" using len by simp
  from main_run_inv[OF v this] obtain r c where
    run: "main_run s E b trace = Some (r, c)" and inv: "state_inv s E b r c"
    and cnt: "opCounter c = int (length trace)" by blast
  have opc: "opCounter c < LONG_MAX" using cnt len by simp
  from access_step[OF v inv opc, of addr oper sz] obtain setIdx tag r' c' where
    st: "decompose s b addr = Some (setIdx, tag)" "unat setIdx < length (sets c)"
     "access s b (r, c) (oper, addr, sz) = Some (r', c')"
     "state_inv s E b r' c'" "opCounter c' = opCounter c + 1"
     "length (sets c') = length (sets c)"
     "\<forall>k<length (sets c). num (sets c ! k) \<le> num (sets c' ! k)"
     "hits r' = (if long_of_ulong tag \<in> tagBit ` set (resident (sets c ! unat setIdx))
                then hits r + 1 else hits r)"
     "misses r' = (if long_of_ulong tag \<in> tagBit ` set (resident (sets c ! unat setIdx))
                  then misses r else misses r + 1)"
     "evictions r' = (if long_of_ulong tag \<notin> tagBit ` set (resident (sets c ! unat setIdx))
                        \<and> num (sets c ! unat setIdx) = E
                     then evictions r + 1 else evictions r)"
    by blast
  have "main_run s E b (trace @ [(oper, addr, sz)]) = Some (r', c')"
    using run st(3) by (simp add: main_run_snoc)
  then show ?thesis using that run inv cnt st by blast
qed

lemma unat_facts:
  assumes "uint (h::ulong) + uint (m::ulong) = int n" "uint (e::ulong) \<le> uint m"
  shows "unat h + unat m = n" "unat e \<le> unat m"
proof -
  have "int (unat h) + int (unat m) = int n" "int (unat e) \<le> int (unat m)"
    using assms by simp_all
  then show "unat h + unat m = n" "unat e \<le> unat m" by linarith+
qed

lemma main_loop_mono:
  assumes v: "valid_config s E b"
  shows "state_inv s E b r c \<Longrightarrow> opCounter c + int (length further) \<le> LONG_MAX \<Longrightarrow>
    \<exists>r' c'. main_loop s b (r, c) further = Some (r', c') \<and> state_inv s E b r' c' \<and>
       length (sets c') = length (sets c) \<and>
       (\<forall>k<length (sets c). num (sets c ! k) \<le> num (sets c' ! k))"
proof (induction further arbitrary: r c)
  case Nil
  then show ?case by simp
next
  case (Cons rcd rest)
  obtain oper addr sz where rcd: "rcd = (oper, addr, sz)" by (cases rcd) auto
  have opc: "opCounter c < LONG_MAX" using Cons.prems(2) by simp
  from access_step[OF v Cons.prems(1) opc, of addr oper sz] obtain r1 c1 where
    a: "access s b (r, c) rcd = Some (r1, c1)"
    and i1: "state_inv s E b r1 c1" and o1: "opCounter c1 = opCounter c + 1"
    and l1: "length (sets c1) = length (sets c)"
    and m1: "\<forall>k<length (sets c). num (sets c ! k) \<le> num (sets c1 ! k)"
    unfolding rcd by blast
  have "opCounter c1 + int (length rest) \<le> LONG_MAX" using o1 Cons.prems(2) by simp
  from Cons.IH[OF i1 this] obtain r' c' where
    r: "main_loop s b (r1, c1) rest = Some (r', c')" "state_inv s E b r' c'"
    "length (sets c') = length (sets c1)"
    "\<forall>k<length (sets c1). num (sets c1 ! k) \<le> num (sets c' ! k)" by blast
  have "\<forall>k<length (sets c). num (sets c ! k) \<le> num (sets c' ! k)"
    using m1 r(4) l1 by fastforce
  then show ?case using a r l1 by simp
qed

lemma block_size_bytes_pow:
  "0 \<le> b \<Longrightarrow> b \<le> 62 \<Longrightarrow> block_size_bytes b = 2 ^ nat b"
  by (simp add: block_size_bytes_def shl_long_1 ulong_of_long_def word_of_int_2p)

lemma sum_list_if_count:
  "sum_list (map (\<lambda>l. if P l then x else 0) xs) = of_nat (length (filter P xs)) * (x::ulong)"
  by (induction xs) (simp_all add: algebra_simps)

lemma sum_list_of_nat_mult:
  "sum_list (map (\<lambda>st. of_nat (f st) * (x::ulong)) sts) = of_nat (sum_list (map f sts)) * x"
  by (induction sts) (simp_all add: algebra_simps)

lemma dirty_sum_count: "dirty_sum b c = of_nat (dirty_count c) * block_size_bytes b"
proof -
  have "dirty_sum_set b =
      (\<lambda>st. of_nat (length (filter (\<lambda>l. dirtyBit l > 0) (resident st))) * block_size_bytes b)"
    by (rule ext) (simp add: dirty_sum_set_def sum_list_if_count)
  then show ?thesis
    by (simp add: dirty_sum_def dirty_count_def sum_list_of_nat_mult)
qed

lemma dirty_sum_exact:
  assumes "0 \<le> b" "b \<le> 62" "dirty_count c * 2 ^ nat b < 2 ^ 64"
  shows "unat (dirty_sum b c) = dirty_count c * 2 ^ nat b"
proof -
  have "dirty_sum b c = of_nat (dirty_count c * 2 ^ nat b)"
    using assms(1,2) by (simp add: dirty_sum_count block_size_bytes_pow)
  then show ?thesis using assms(3) by (intro of_nat_inverse) simp_all
qed

lemma access_not_store:
  "oper \<noteq> CHR ''S'' \<Longrightarrow> access s b rc (oper, addr, sz) = access s b rc (CHR ''L'', addr, sz)"
  by (cases rc) (simp add: access_def split: option.splits prod.splits)

lemma decompose_undefined:
  "\<not> (0 \<le> s \<and> 0 \<le> b \<and> b + s < 64) \<Longrightarrow> decompose s b a = None"
  by (auto simp: decompose_def shr_ulong_def shl_ulong_def split: option.splits)

section \<open>The claims\<close>

text \<open>
  Claim C2, as the spec states it: for every 64-bit address and all widths \<open>b\<close> and
  \<open>s\<close>, the set index is 0 when \<open>s = 0\<close> and otherwise the address shifted right
  by \<open>b\<close> and masked to its low \<open>s\<close> bits, and the tag is the address shifted right
  by \<open>b + s\<close>. \<open>main\<close> takes the widths from the options unchecked, and with
  \<open>s = 1\<close> and \<open>b = 63\<close> it shifts the address by 64 to get the tag, which C
  leaves undefined: the decomposition has no value there, where the claim gives the
  set index 1 and the tag 0.
\<close>

theorem decompose_counterexample:
  "decompose 1 63 0x8000000000000005 = None \<and>
   decompose 1 63 0x8000000000000005 \<noteq>
     Some (drop_bit 63 0x8000000000000005 AND mask 1, drop_bit (63 + 1) 0x8000000000000005)"
  by (simp add: decompose_def shr_ulong_def shl_ulong_def)

text \<open>
  Claim C2, amended: for every 64-bit address, and for the widths with \<open>0 \<le> s\<close>,
  \<open>0 \<le> b\<close> and \<open>b + s < 64\<close>, the set index is 0 when \<open>s = 0\<close> and otherwise the
  address shifted right by \<open>b\<close> and masked to its low \<open>s\<close> bits, and the tag is the
  address shifted right by \<open>b + s\<close>. For all other widths a shift of the
  decomposition is undefined in C and the decomposition has no value.
\<close>

theorem decompose_correct:
  "decompose s b address =
     (if 0 \<le> s \<and> 0 \<le> b \<and> b + s < 64
      then Some (if s = 0 then 0 else drop_bit (nat b) address AND mask (nat s),
                 drop_bit (nat (b + s)) address)
      else None)"
  by (simp add: decompose_defined decompose_undefined)

text \<open>
  The witness: widths inside the bound (among them \<open>b + s = 63\<close>) and widths at and
  past it.
\<close>

theorem decompose_correct_witness:
  "decompose 2 4 0x1F7 = Some (3, 7) \<and> decompose 0 4 0x1F7 = Some (0, 0x1F) \<and>
   decompose 1 62 0xC000000000000005 = Some (1, 1) \<and>
   decompose 1 63 0x8000000000000005 = None \<and> decompose 0 64 5 = None"
  using decompose_correct[of 2 4 "0x1F7"] decompose_correct[of 0 4 "0x1F7"]
    decompose_correct[of 1 62 "0xC000000000000005"]
    decompose_correct[of 1 63 "0x8000000000000005"] decompose_correct[of 0 64 5]
  by (simp add: mask_eq_exp_minus_1)

text \<open>
  Claim C1. In a state that \<open>main\<close> reaches, an access to a full set (\<open>num = E\<close>)
  whose tag is in no line in use evicts the line \<open>j\<close> with the least \<open>lruCounter\<close>,
  the first such line in index order. When that line is dirty, \<open>dirty_bytes\<close> loses
  the block size and \<open>dirty_evictions\<close> gains it; the line receives the dirty bit, the
  tag and the stamp of the access, \<open>dirty_bytes\<close> gains the block size when the access
  is a store, and \<open>misses\<close> and \<open>evictions\<close> grow by one.
\<close>

theorem eviction_of_lru_line:
  assumes "valid_config s E b" and "main_run s E b trace = Some (r, c)"
    and "int (length trace) < LONG_MAX"
    and "k < length (sets c)"
    and "num (sets c ! k) = E"
    and "tag \<notin> tagBit ` set (resident (sets c ! k))"
  shows "\<exists>j. first_min_upto (sets c ! k) (nat E) j \<and>
     addToSet r c k dirty tag b =
       Some (r\<lparr>misses := misses r + 1, evictions := evictions r + 1,
               dirty_bytes := dirty_bytes r
                 - (if dirtyBit (lines (sets c ! k) ! j) > 0 then block_size_bytes b else 0)
                 + (if dirty > 0 then block_size_bytes b else 0),
               dirty_evictions := dirty_evictions r
                 + (if dirtyBit (lines (sets c ! k) ! j) > 0 then block_size_bytes b else 0)\<rparr>,
             c\<lparr>sets := (sets c)[k := (sets c ! k)
                    \<lparr>lines := (lines (sets c ! k))[j := newLine dirty tag (opCounter c)]\<rparr>],
               opCounter := opCounter c + 1\<rparr>)"
proof -
  note ok = reach_ok[OF assms(1,3,2)]
  have sok: "set_ok E (sets c ! k)" using ok(1,2) assms(4) cache_ok_set by blast
  then have "0 \<le> num (sets c ! k)" "num (sets c ! k) \<le> int (length (lines (sets c ! k)))"
    by (simp_all add: set_ok_def)
  from resident_tags_iff[OF this, of tag] assms(6)
  have nores: "\<And>i. int i < num (sets c ! k) \<Longrightarrow> tagBit (lines (sets c ! k) ! i) \<noteq> tag"
    by blast
  have full: "num (sets c ! k) = cache_E c" using assms(5) ok(2) by simp
  from addToSet_evict[OF ok(1) assms(4) ok(3,4,5) nores full, of r dirty]
  show ?thesis using assms(5) by simp
qed

text \<open>
  The witness: two lines per set, one set, blocks of one byte; after a load of tag 1, a
  store of tag 2 and a load of tag 1, a load of tag 3 evicts the dirty line of tag 2.
\<close>

theorem eviction_of_lru_line_witness:
  "\<exists>r c. valid_config 0 2 0 \<and>
     main_run 0 2 0 [(CHR ''L'', 1, 1), (CHR ''S'', 2, 1), (CHR ''L'', 1, 1)] = Some (r, c) \<and>
     int (length [(CHR ''L'', 1::ulong, 1::int), (CHR ''S'', 2, 1), (CHR ''L'', 1, 1)]) < LONG_MAX \<and>
     0 < length (sets c) \<and> num (sets c ! 0) = 2 \<and>
     3 \<notin> tagBit ` set (resident (sets c ! 0)) \<and>
     (\<exists>j. first_min_upto (sets c ! 0) (nat 2) j \<and>
       addToSet r c 0 0 3 0 =
         Some (r\<lparr>misses := misses r + 1, evictions := evictions r + 1,
                 dirty_bytes := dirty_bytes r
                   - (if dirtyBit (lines (sets c ! 0) ! j) > 0 then block_size_bytes 0 else 0)
                   + (if (0::int) > 0 then block_size_bytes 0 else 0),
                 dirty_evictions := dirty_evictions r
                   + (if dirtyBit (lines (sets c ! 0) ! j) > 0 then block_size_bytes 0 else 0)\<rparr>,
               c\<lparr>sets := (sets c)[0 := (sets c ! 0)
                      \<lparr>lines := (lines (sets c ! 0))[j := newLine 0 3 (opCounter c)]\<rparr>],
                 opCounter := opCounter c + 1\<rparr>)) \<and>
     map_option (\<lambda>(r', c'). (dirty_bytes r', dirty_evictions r',
                   map tagBit (lines (sets c' ! 0)))) (addToSet r c 0 0 3 0)
       = Some (0, 1, [1, 3])"
proof -
  define r :: csim_stats_t where
    "r = \<lparr>hits = 1, misses = 2, evictions = 0, dirty_bytes = 1, dirty_evictions = 0\<rparr>"
  define c :: Cache where
    "c = \<lparr>cache_s = 1, cache_E = 2, opCounter = 3,
          sets = [\<lparr>num = 2, capacity = 2,
                   lines = [\<lparr>dirtyBit = 0, tagBit = 1, lruCounter = 2\<rparr>,
                            \<lparr>dirtyBit = 1, tagBit = 2, lruCounter = 1\<rparr>]\<rparr>]\<rparr>"
  have h1: "valid_config 0 2 0" by (simp add: valid_config_def INT_MAX_def)
  have h2: "main_run 0 2 0 [(CHR ''L'', 1, 1), (CHR ''S'', 2, 1), (CHR ''L'', 1, 1)] = Some (r, c)"
    unfolding r_def c_def by code_simp
  have h3: "int (length [(CHR ''L'', 1::ulong, 1::int), (CHR ''S'', 2, 1), (CHR ''L'', 1, 1)]) < LONG_MAX"
    by (simp add: LONG_MAX_def)
  have h4: "0 < length (sets c)" by (simp add: c_def)
  have h5: "num (sets c ! 0) = 2" by (simp add: c_def)
  have h6: "3 \<notin> tagBit ` set (resident (sets c ! 0))" by (simp add: c_def resident_def)
  have h7: "map_option (\<lambda>(r', c'). (dirty_bytes r', dirty_evictions r',
                   map tagBit (lines (sets c' ! 0)))) (addToSet r c 0 0 3 0)
       = Some (0, 1, [1, 3])"
    unfolding r_def c_def by code_simp
  from eviction_of_lru_line[OF h1 h2 h3 h4 h5 h6, of 0]
  show ?thesis using h1 h2 h3 h4 h5 h6 h7 by blast
qed

text \<open>
  Claim C4. In a state that \<open>main\<close> reaches, an access whose tag is that of the line
  \<open>j\<close> in use in the target set is a hit: the stamp of the line becomes the current
  \<open>opCounter\<close>; when the access is a write and the line was clean the line becomes
  dirty and \<open>dirty_bytes\<close> gains the block size, and a line that was dirty already
  changes no count; \<open>hits\<close> grows by one; \<open>num\<close>, the tags, \<open>misses\<close> and
  \<open>evictions\<close> stay as they are.
\<close>

theorem hit_updates_line:
  assumes "valid_config s E b" and "main_run s E b trace = Some (r, c)"
    and "int (length trace) < LONG_MAX"
    and "k < length (sets c)"
    and "int j < num (sets c ! k)"
    and "tagBit (lines (sets c ! k) ! j) = tag"
  shows "addToSet r c k dirty tag b =
     Some (r\<lparr>dirty_bytes := dirty_bytes r +
                (if dirtyBit (lines (sets c ! k) ! j) = 0 \<and> dirty > 0
                 then block_size_bytes b else 0),
             hits := hits r + 1\<rparr>,
           c\<lparr>sets := (sets c)[k := (sets c ! k)
                  \<lparr>lines := (lines (sets c ! k))[j := (lines (sets c ! k) ! j)
                      \<lparr>lruCounter := opCounter c,
                       dirtyBit := (if dirtyBit (lines (sets c ! k) ! j) = 0 \<and> dirty > 0
                                    then dirty else dirtyBit (lines (sets c ! k) ! j))\<rparr>]\<rparr>],
             opCounter := opCounter c + 1\<rparr>)"
proof -
  note ok = reach_ok[OF assms(1,3,2)]
  show ?thesis using ok(1) assms(4) ok(3,4,5) assms(5,6) by (rule addToSet_hit)
qed

text \<open>
  The witness: after a load of tag 1 and a store of tag 2, a store to tag 1 hits the
  clean line 0, which becomes dirty, and \<open>dirty_bytes\<close> goes from 4 to 8 (blocks of 4
  bytes).
\<close>

theorem hit_updates_line_witness:
  "\<exists>r c. valid_config 0 2 2 \<and>
     main_run 0 2 2 [(CHR ''L'', 4, 1), (CHR ''S'', 8, 1)] = Some (r, c) \<and>
     int (length [(CHR ''L'', 4::ulong, 1::int), (CHR ''S'', 8, 1)]) < LONG_MAX \<and>
     0 < length (sets c) \<and> int 0 < num (sets c ! 0) \<and>
     tagBit (lines (sets c ! 0) ! 0) = 1 \<and>
     addToSet r c 0 1 1 2 =
       Some (r\<lparr>dirty_bytes := dirty_bytes r +
                  (if dirtyBit (lines (sets c ! 0) ! 0) = 0 \<and> (1::int) > 0
                   then block_size_bytes 2 else 0),
               hits := hits r + 1\<rparr>,
             c\<lparr>sets := (sets c)[0 := (sets c ! 0)
                    \<lparr>lines := (lines (sets c ! 0))[0 := (lines (sets c ! 0) ! 0)
                        \<lparr>lruCounter := opCounter c,
                         dirtyBit := (if dirtyBit (lines (sets c ! 0) ! 0) = 0 \<and> (1::int) > 0
                                      then 1 else dirtyBit (lines (sets c ! 0) ! 0))\<rparr>]\<rparr>],
               opCounter := opCounter c + 1\<rparr>) \<and>
     dirty_bytes r = 4 \<and>
     map_option (\<lambda>(r', c'). (hits r', dirty_bytes r',
                   map dirtyBit (lines (sets c' ! 0)))) (addToSet r c 0 1 1 2)
       = Some (1, 8, [1, 1])"
proof -
  define r :: csim_stats_t where
    "r = \<lparr>hits = 0, misses = 2, evictions = 0, dirty_bytes = 4, dirty_evictions = 0\<rparr>"
  define c :: Cache where
    "c = \<lparr>cache_s = 1, cache_E = 2, opCounter = 2,
          sets = [\<lparr>num = 2, capacity = 2,
                   lines = [\<lparr>dirtyBit = 0, tagBit = 1, lruCounter = 0\<rparr>,
                            \<lparr>dirtyBit = 1, tagBit = 2, lruCounter = 1\<rparr>]\<rparr>]\<rparr>"
  have h1: "valid_config 0 2 2" by (simp add: valid_config_def INT_MAX_def)
  have h2: "main_run 0 2 2 [(CHR ''L'', 4, 1), (CHR ''S'', 8, 1)] = Some (r, c)"
    unfolding r_def c_def by code_simp
  have h3: "int (length [(CHR ''L'', 4::ulong, 1::int), (CHR ''S'', 8, 1)]) < LONG_MAX"
    by (simp add: LONG_MAX_def)
  have h4: "0 < length (sets c)" by (simp add: c_def)
  have h5: "int 0 < num (sets c ! 0)" by (simp add: c_def)
  have h6: "tagBit (lines (sets c ! 0) ! 0) = 1" by (simp add: c_def)
  have h7: "dirty_bytes r = 4" by (simp add: r_def)
  have h8: "map_option (\<lambda>(r', c'). (hits r', dirty_bytes r',
                   map dirtyBit (lines (sets c' ! 0)))) (addToSet r c 0 1 1 2)
       = Some (1, 8, [1, 1])"
    unfolding r_def c_def by code_simp
  from hit_updates_line[OF h1 h2 h3 h4 h5 h6, of 1]
  show ?thesis using h1 h2 h3 h4 h5 h6 h7 h8 by blast
qed

text \<open>
  Claim C7. In a state that \<open>main\<close> reaches after the accesses of \<open>trace\<close>,
  \<open>opCounter\<close> is the number of those accesses, so it is 0 before the first access
  and grows strictly; an access returns, adds exactly one to \<open>opCounter\<close>, and the
  line of the target set that holds the tag of the access afterwards carries, as its
  stamp, the value that \<open>opCounter\<close> had before the access.
\<close>

theorem access_counter_stamp:
  assumes "valid_config s E b" and "main_run s E b trace = Some (r, c)"
    and "int (length trace) < LONG_MAX"
    and "k < length (sets c)"
  shows "opCounter c = int (length trace) \<and>
     (\<exists>r' c' j. addToSet r c k dirty tag b = Some (r', c') \<and>
        opCounter c' = opCounter c + 1 \<and> opCounter c < opCounter c' \<and>
        int j < num (sets c' ! k) \<and> j < length (lines (sets c' ! k)) \<and>
        tagBit (lines (sets c' ! k) ! j) = tag \<and>
        lruCounter (lines (sets c' ! k) ! j) = opCounter c)"
proof -
  note ok = reach_ok[OF assms(1,3,2)]
  from addToSet_shape[OF ok(1) assms(4) ok(3,4,5), of r dirty tag]
  obtain r' j l' n' where
    eq: "addToSet r c k dirty tag b =
       Some (r', c\<lparr>sets := (sets c)[k := (sets c ! k)
                        \<lparr>lines := (lines (sets c ! k))[j := l'], num := n'\<rparr>],
                   opCounter := opCounter c + 1\<rparr>)"
    and j: "j < length (lines (sets c ! k))" "int j < n'"
    and l': "tagBit l' = tag" "lruCounter l' = opCounter c"
    by blast
  let ?c' = "c\<lparr>sets := (sets c)[k := (sets c ! k)
                        \<lparr>lines := (lines (sets c ! k))[j := l'], num := n'\<rparr>],
                   opCounter := opCounter c + 1\<rparr>"
  have "opCounter ?c' = opCounter c + 1 \<and> opCounter c < opCounter ?c' \<and>
        int j < num (sets ?c' ! k) \<and> j < length (lines (sets ?c' ! k)) \<and>
        tagBit (lines (sets ?c' ! k) ! j) = tag \<and>
        lruCounter (lines (sets ?c' ! k) ! j) = opCounter c"
    using assms(4) j l' by simp
  then show ?thesis using eq ok(6) by blast
qed

text \<open>
  The witness: the first access of a run (the trace so far is empty) is stamped 0, and
  the counter goes from 0 to 1.
\<close>

theorem access_counter_stamp_witness:
  "\<exists>r c. valid_config 1 1 0 \<and> main_run 1 1 0 [] = Some (r, c) \<and>
     int (length ([] :: trace_record list)) < LONG_MAX \<and> 1 < length (sets c) \<and>
     opCounter c = int (length ([] :: trace_record list)) \<and>
     (\<exists>r' c' j. addToSet r c 1 1 7 0 = Some (r', c') \<and>
        opCounter c' = opCounter c + 1 \<and> opCounter c < opCounter c' \<and>
        int j < num (sets c' ! 1) \<and> j < length (lines (sets c' ! 1)) \<and>
        tagBit (lines (sets c' ! 1) ! j) = 7 \<and>
        lruCounter (lines (sets c' ! 1) ! j) = opCounter c) \<and>
     map_option (\<lambda>(r', c'). (opCounter c', map lruCounter (lines (sets c' ! 1))))
        (addToSet r c 1 1 7 0) = Some (1, [0])"
proof -
  define r :: csim_stats_t where
    "r = \<lparr>hits = 0, misses = 0, evictions = 0, dirty_bytes = 0, dirty_evictions = 0\<rparr>"
  define c :: Cache where
    "c = \<lparr>cache_s = 2, cache_E = 1, opCounter = 0,
          sets = [\<lparr>num = 0, capacity = 1,
                   lines = [\<lparr>dirtyBit = 0, tagBit = 0, lruCounter = 0\<rparr>]\<rparr>,
                  \<lparr>num = 0, capacity = 1,
                   lines = [\<lparr>dirtyBit = 0, tagBit = 0, lruCounter = 0\<rparr>]\<rparr>]\<rparr>"
  have h1: "valid_config 1 1 0" by (simp add: valid_config_def INT_MAX_def)
  have h2: "main_run 1 1 0 [] = Some (r, c)" unfolding r_def c_def by code_simp
  have h3: "int (length ([] :: trace_record list)) < LONG_MAX" by (simp add: LONG_MAX_def)
  have h4: "1 < length (sets c)" by (simp add: c_def)
  have h5: "map_option (\<lambda>(r', c'). (opCounter c', map lruCounter (lines (sets c' ! 1))))
        (addToSet r c 1 1 7 0) = Some (1, [0])"
    unfolding r_def c_def by code_simp
  from access_counter_stamp[OF h1 h2 h3 h4, of 1 7]
  show ?thesis using h1 h2 h3 h4 h5 by blast
qed

text \<open>
  Claim C8. In a state that \<open>main\<close> reaches, an access changes one line \<open>j\<close> of the
  target set \<open>k\<close>, the \<open>num\<close> of that set, \<open>opCounter\<close> and the counters of the
  results, and nothing else: the fields \<open>s\<close> and \<open>E\<close> of the cache, the number of
  sets, every other set, the capacity and the number of slots of the target set and
  every other line of it are the same afterwards.
\<close>

theorem access_frame:
  assumes "valid_config s E b" and "main_run s E b trace = Some (r, c)"
    and "int (length trace) < LONG_MAX"
    and "k < length (sets c)"
  shows "\<exists>r' c' j. addToSet r c k dirty tag b = Some (r', c') \<and>
     cache_s c' = cache_s c \<and> cache_E c' = cache_E c \<and>
     length (sets c') = length (sets c) \<and>
     (\<forall>k'. k' \<noteq> k \<longrightarrow> sets c' ! k' = sets c ! k') \<and>
     capacity (sets c' ! k) = capacity (sets c ! k) \<and>
     length (lines (sets c' ! k)) = length (lines (sets c ! k)) \<and>
     j < length (lines (sets c ! k)) \<and>
     (\<forall>i. i \<noteq> j \<longrightarrow> lines (sets c' ! k) ! i = lines (sets c ! k) ! i)"
proof -
  note ok = reach_ok[OF assms(1,3,2)]
  from addToSet_shape[OF ok(1) assms(4) ok(3,4,5), of r dirty tag]
  obtain r' j l' n' where
    eq: "addToSet r c k dirty tag b =
       Some (r', c\<lparr>sets := (sets c)[k := (sets c ! k)
                        \<lparr>lines := (lines (sets c ! k))[j := l'], num := n'\<rparr>],
                   opCounter := opCounter c + 1\<rparr>)"
    and j: "j < length (lines (sets c ! k))"
    by blast
  let ?c' = "c\<lparr>sets := (sets c)[k := (sets c ! k)
                        \<lparr>lines := (lines (sets c ! k))[j := l'], num := n'\<rparr>],
                   opCounter := opCounter c + 1\<rparr>"
  have "cache_s ?c' = cache_s c \<and> cache_E ?c' = cache_E c \<and>
     length (sets ?c') = length (sets c) \<and>
     (\<forall>k'. k' \<noteq> k \<longrightarrow> sets ?c' ! k' = sets c ! k') \<and>
     capacity (sets ?c' ! k) = capacity (sets c ! k) \<and>
     length (lines (sets ?c' ! k)) = length (lines (sets c ! k)) \<and>
     j < length (lines (sets c ! k)) \<and>
     (\<forall>i. i \<noteq> j \<longrightarrow> lines (sets ?c' ! k) ! i = lines (sets c ! k) ! i)"
    using assms(4) j by simp
  then show ?thesis using eq by blast
qed

text \<open>
  The witness: two sets of two lines; after loads that put a line in each set, a store
  that misses in set 1 leaves set 0 and line 0 of set 1 as they were.
\<close>

theorem access_frame_witness:
  "\<exists>r c. valid_config 1 2 0 \<and>
     main_run 1 2 0 [(CHR ''L'', 0, 1), (CHR ''L'', 1, 1)] = Some (r, c) \<and>
     int (length [(CHR ''L'', 0::ulong, 1::int), (CHR ''L'', 1, 1)]) < LONG_MAX \<and>
     1 < length (sets c) \<and>
     (\<exists>r' c' j. addToSet r c 1 1 9 0 = Some (r', c') \<and>
       cache_s c' = cache_s c \<and> cache_E c' = cache_E c \<and>
       length (sets c') = length (sets c) \<and>
       (\<forall>k'. k' \<noteq> 1 \<longrightarrow> sets c' ! k' = sets c ! k') \<and>
       capacity (sets c' ! 1) = capacity (sets c ! 1) \<and>
       length (lines (sets c' ! 1)) = length (lines (sets c ! 1)) \<and>
       j < length (lines (sets c ! 1)) \<and>
       (\<forall>i. i \<noteq> j \<longrightarrow> lines (sets c' ! 1) ! i = lines (sets c ! 1) ! i)) \<and>
     map_option (\<lambda>(r', c'). (sets c' ! 0 = sets c ! 0,
         lines (sets c' ! 1) ! 0 = lines (sets c ! 1) ! 0,
         map tagBit (lines (sets c' ! 1)))) (addToSet r c 1 1 9 0)
       = Some (True, True, [0, 9])"
proof -
  define r :: csim_stats_t where
    "r = \<lparr>hits = 0, misses = 2, evictions = 0, dirty_bytes = 0, dirty_evictions = 0\<rparr>"
  define c :: Cache where
    "c = \<lparr>cache_s = 2, cache_E = 2, opCounter = 2,
          sets = [\<lparr>num = 1, capacity = 2,
                   lines = [\<lparr>dirtyBit = 0, tagBit = 0, lruCounter = 0\<rparr>,
                            \<lparr>dirtyBit = 0, tagBit = 0, lruCounter = 0\<rparr>]\<rparr>,
                  \<lparr>num = 1, capacity = 2,
                   lines = [\<lparr>dirtyBit = 0, tagBit = 0, lruCounter = 1\<rparr>,
                            \<lparr>dirtyBit = 0, tagBit = 0, lruCounter = 0\<rparr>]\<rparr>]\<rparr>"
  have h1: "valid_config 1 2 0" by (simp add: valid_config_def INT_MAX_def)
  have h2: "main_run 1 2 0 [(CHR ''L'', 0, 1), (CHR ''L'', 1, 1)] = Some (r, c)"
    unfolding r_def c_def by code_simp
  have h3: "int (length [(CHR ''L'', 0::ulong, 1::int), (CHR ''L'', 1, 1)]) < LONG_MAX"
    by (simp add: LONG_MAX_def)
  have h4: "1 < length (sets c)" by (simp add: c_def)
  have h5: "map_option (\<lambda>(r', c'). (sets c' ! 0 = sets c ! 0,
         lines (sets c' ! 1) ! 0 = lines (sets c ! 1) ! 0,
         map tagBit (lines (sets c' ! 1)))) (addToSet r c 1 1 9 0)
       = Some (True, True, [0, 9])"
    unfolding r_def c_def by code_simp
  from access_frame[OF h1 h2 h3 h4, of 1 9]
  show ?thesis using h1 h2 h3 h4 h5 by blast
qed

text \<open>
  Claim C5. From the construction of the cache with a positive \<open>E\<close> on, before and
  after every access, every set has \<open>0 \<le> num \<le> E\<close>; and the access adds one to
  \<open>evictions\<close> exactly when the target set has \<open>num = E\<close> and the tag of the access is
  in none of its lines in use, and leaves \<open>evictions\<close> as it is otherwise.
\<close>

theorem capacity_and_eviction:
  assumes "valid_config s E b" and "int (length trace) < LONG_MAX"
  shows "\<exists>r c r' c' setIdx tag.
     main_run s E b trace = Some (r, c) \<and>
     main_run s E b (trace @ [(oper, addr, sz)]) = Some (r', c') \<and>
     decompose s b addr = Some (setIdx, tag) \<and> unat setIdx < length (sets c) \<and>
     (\<forall>st\<in>set (sets c). 0 \<le> num st \<and> num st \<le> E) \<and>
     (\<forall>st\<in>set (sets c'). 0 \<le> num st \<and> num st \<le> E) \<and>
     (evictions r' = evictions r + 1 \<longleftrightarrow>
        num (sets c ! unat setIdx) = E \<and>
        long_of_ulong tag \<notin> tagBit ` set (resident (sets c ! unat setIdx))) \<and>
     (evictions r' = evictions r \<longleftrightarrow>
        \<not> (num (sets c ! unat setIdx) = E \<and>
           long_of_ulong tag \<notin> tagBit ` set (resident (sets c ! unat setIdx))))"
proof (rule run_and_access[OF assms, of addr oper sz])
  fix r c setIdx tag r' c'
  assume f: "main_run s E b trace = Some (r, c)" "state_inv s E b r c"
    "decompose s b addr = Some (setIdx, tag)" "unat setIdx < length (sets c)"
    "main_run s E b (trace @ [(oper, addr, sz)]) = Some (r', c')"
    "state_inv s E b r' c'"
    "evictions r' = (if long_of_ulong tag \<notin> tagBit ` set (resident (sets c ! unat setIdx))
                        \<and> num (sets c ! unat setIdx) = E
                     then evictions r + 1 else evictions r)"
  have b1: "\<forall>st\<in>set (sets c). 0 \<le> num st \<and> num st \<le> E" using f(2) by (rule set_ok_all)
  have b2: "\<forall>st\<in>set (sets c'). 0 \<le> num st \<and> num st \<le> E" using f(6) by (rule set_ok_all)
  have e1: "evictions r' = evictions r + 1 \<longleftrightarrow>
        num (sets c ! unat setIdx) = E \<and>
        long_of_ulong tag \<notin> tagBit ` set (resident (sets c ! unat setIdx))"
    using f(7) by (auto simp: ulong_Suc_neq)
  have e2: "evictions r' = evictions r \<longleftrightarrow>
        \<not> (num (sets c ! unat setIdx) = E \<and>
           long_of_ulong tag \<notin> tagBit ` set (resident (sets c ! unat setIdx)))"
    using f(7) by (auto simp: ulong_Suc_neq)
  show ?thesis
    by (rule exI[of _ r], rule exI[of _ c], rule exI[of _ r'], rule exI[of _ c'],
        rule exI[of _ setIdx], rule exI[of _ tag])
      (intro conjI f(1) f(5) f(3) f(4) b1 b2 e1 e2)
qed

text \<open>
  The witness: one set of one line. After a load of address 0 the set is full, and a
  load of address 16, whose tag is not in the set, takes \<open>evictions\<close> from 0 to 1.
\<close>

theorem capacity_and_eviction_witness:
  "valid_config 0 1 0 \<and> int (length [(CHR ''L'', 0::ulong, 1::int)]) < LONG_MAX \<and>
   (\<exists>r c r' c' setIdx tag.
     main_run 0 1 0 [(CHR ''L'', 0, 1)] = Some (r, c) \<and>
     main_run 0 1 0 ([(CHR ''L'', 0, 1)] @ [(CHR ''L'', 16, 1)]) = Some (r', c') \<and>
     decompose 0 0 16 = Some (setIdx, tag) \<and> unat setIdx < length (sets c) \<and>
     (\<forall>st\<in>set (sets c). 0 \<le> num st \<and> num st \<le> 1) \<and>
     (\<forall>st\<in>set (sets c'). 0 \<le> num st \<and> num st \<le> 1) \<and>
     (evictions r' = evictions r + 1 \<longleftrightarrow>
        num (sets c ! unat setIdx) = 1 \<and>
        long_of_ulong tag \<notin> tagBit ` set (resident (sets c ! unat setIdx))) \<and>
     (evictions r' = evictions r \<longleftrightarrow>
        \<not> (num (sets c ! unat setIdx) = 1 \<and>
           long_of_ulong tag \<notin> tagBit ` set (resident (sets c ! unat setIdx))))) \<and>
   map_option (\<lambda>(r, c). (evictions r, map num (sets c))) (main_run 0 1 0 [(CHR ''L'', 0, 1)])
     = Some (0, [1]) \<and>
   map_option (\<lambda>(r, c). (evictions r, map num (sets c)))
     (main_run 0 1 0 [(CHR ''L'', 0, 1), (CHR ''L'', 16, 1)]) = Some (1, [1])"
proof -
  have h1: "valid_config 0 1 0" by (simp add: valid_config_def INT_MAX_def)
  have h2: "int (length [(CHR ''L'', 0::ulong, 1::int)]) < LONG_MAX" by (simp add: LONG_MAX_def)
  have h3: "map_option (\<lambda>(r, c). (evictions r, map num (sets c)))
      (main_run 0 1 0 [(CHR ''L'', 0, 1)]) = Some (0, [1])"
    by code_simp
  have h4: "map_option (\<lambda>(r, c). (evictions r, map num (sets c)))
     (main_run 0 1 0 [(CHR ''L'', 0, 1), (CHR ''L'', 16, 1)]) = Some (1, [1])"
    by code_simp
  note t = capacity_and_eviction[OF h1 h2, of "CHR ''L''" 16 1]
  show ?thesis by (intro conjI h1 h2 h3 h4 t)
qed

text \<open>
  Claim C9. Every access adds one to exactly one of \<open>hits\<close> and \<open>misses\<close> and leaves
  the other as it is; after the accesses of a trace, \<open>hits + misses\<close> is the number
  of accesses, which is \<open>opCounter\<close>, and \<open>evictions\<close> is at most \<open>misses\<close>.
\<close>

theorem hits_plus_misses:
  assumes "valid_config s E b" and "int (length trace) < LONG_MAX"
  shows "\<exists>r c r' c'.
     main_run s E b trace = Some (r, c) \<and>
     main_run s E b (trace @ [rcd]) = Some (r', c') \<and>
     (unat (hits r') = unat (hits r) + 1 \<and> misses r' = misses r \<or>
      hits r' = hits r \<and> unat (misses r') = unat (misses r) + 1) \<and>
     unat (hits r) + unat (misses r) = length trace \<and>
     opCounter c = int (length trace) \<and>
     unat (evictions r) \<le> unat (misses r) \<and>
     unat (hits r') + unat (misses r') = length trace + 1 \<and>
     opCounter c' = int (length trace) + 1 \<and>
     unat (evictions r') \<le> unat (misses r')"
proof -
  obtain oper addr sz where rcd: "rcd = (oper, addr, sz)" by (cases rcd) auto
  show ?thesis
  proof (rule run_and_access[OF assms, of addr oper sz])
    fix r c setIdx tag r' c'
    assume f: "main_run s E b trace = Some (r, c)" "state_inv s E b r c"
      "opCounter c = int (length trace)"
      "main_run s E b (trace @ [(oper, addr, sz)]) = Some (r', c')"
      "state_inv s E b r' c'" "opCounter c' = opCounter c + 1"
      "hits r' = (if long_of_ulong tag \<in> tagBit ` set (resident (sets c ! unat setIdx))
                then hits r + 1 else hits r)"
      "misses r' = (if long_of_ulong tag \<in> tagBit ` set (resident (sets c ! unat setIdx))
                  then misses r else misses r + 1)"
    have u: "uint (hits r) + uint (misses r) = int (length trace)"
      "uint (evictions r) \<le> uint (misses r)"
      using f(2,3) by (simp_all add: state_inv_def)
    have u': "uint (hits r') + uint (misses r') = int (length trace + 1)"
      "uint (evictions r') \<le> uint (misses r')"
      using f(5,6,3) by (simp_all add: state_inv_def)
    note n = unat_facts[OF u]
    note n' = unat_facts[OF u']
    have one: "unat (hits r') = unat (hits r) + 1 \<and> misses r' = misses r \<or>
        hits r' = hits r \<and> unat (misses r') = unat (misses r) + 1"
    proof (cases "long_of_ulong tag \<in> tagBit ` set (resident (sets c ! unat setIdx))")
      case True
      then have "misses r' = misses r" using f(8) by simp
      then show ?thesis using n(1) n'(1) by simp
    next
      case False
      then have "hits r' = hits r" using f(7) by simp
      then show ?thesis using n(1) n'(1) by simp
    qed
    have c': "opCounter c' = int (length trace) + 1" using f(3,6) by simp
    show ?thesis
      unfolding rcd
      by (rule exI[of _ r], rule exI[of _ c], rule exI[of _ r'], rule exI[of _ c'])
        (intro conjI f(1) f(4) one n n' f(3) c')
  qed
qed

text \<open>
  The witness: a trace of a miss and a hit, then one more access, a miss that evicts.
\<close>

theorem hits_plus_misses_witness:
  "valid_config 0 1 0 \<and> int (length [(CHR ''L'', 0::ulong, 1::int), (CHR ''S'', 0, 1)]) < LONG_MAX \<and>
   (\<exists>r c r' c'.
     main_run 0 1 0 [(CHR ''L'', 0, 1), (CHR ''S'', 0, 1)] = Some (r, c) \<and>
     main_run 0 1 0 ([(CHR ''L'', 0, 1), (CHR ''S'', 0, 1)] @ [(CHR ''L'', 1, 1)]) = Some (r', c') \<and>
     (unat (hits r') = unat (hits r) + 1 \<and> misses r' = misses r \<or>
      hits r' = hits r \<and> unat (misses r') = unat (misses r) + 1) \<and>
     unat (hits r) + unat (misses r) = length [(CHR ''L'', 0::ulong, 1::int), (CHR ''S'', 0, 1)] \<and>
     opCounter c = int (length [(CHR ''L'', 0::ulong, 1::int), (CHR ''S'', 0, 1)]) \<and>
     unat (evictions r) \<le> unat (misses r) \<and>
     unat (hits r') + unat (misses r') = length [(CHR ''L'', 0::ulong, 1::int), (CHR ''S'', 0, 1)] + 1 \<and>
     opCounter c' = int (length [(CHR ''L'', 0::ulong, 1::int), (CHR ''S'', 0, 1)]) + 1 \<and>
     unat (evictions r') \<le> unat (misses r')) \<and>
   map_option (\<lambda>(r, c). (hits r, misses r, evictions r, opCounter c))
     (main_run 0 1 0 [(CHR ''L'', 0, 1), (CHR ''S'', 0, 1)]) = Some (1, 1, 0, 2) \<and>
   map_option (\<lambda>(r, c). (hits r, misses r, evictions r, opCounter c))
     (main_run 0 1 0 [(CHR ''L'', 0, 1), (CHR ''S'', 0, 1), (CHR ''L'', 1, 1)]) = Some (1, 2, 1, 3)"
proof -
  have h1: "valid_config 0 1 0" by (simp add: valid_config_def INT_MAX_def)
  have h2: "int (length [(CHR ''L'', 0::ulong, 1::int), (CHR ''S'', 0, 1)]) < LONG_MAX"
    by (simp add: LONG_MAX_def)
  have h3: "map_option (\<lambda>(r, c). (hits r, misses r, evictions r, opCounter c))
     (main_run 0 1 0 [(CHR ''L'', 0, 1), (CHR ''S'', 0, 1)]) = Some (1, 1, 0, 2)"
    by code_simp
  have h4: "map_option (\<lambda>(r, c). (hits r, misses r, evictions r, opCounter c))
     (main_run 0 1 0 [(CHR ''L'', 0, 1), (CHR ''S'', 0, 1), (CHR ''L'', 1, 1)]) = Some (1, 2, 1, 3)"
    by code_simp
  note t = hits_plus_misses[OF h1 h2, of "(CHR ''L'', 1, 1)"]
  show ?thesis by (intro conjI h1 h2 h3 h4 t)
qed

text \<open>
  Claim C10. The \<open>num\<close> of a set never decreases in the course of a run: the slots in
  use after some accesses are in use after any further accesses, and a set that has
  reached \<open>num = E\<close> keeps \<open>num = E\<close>.
\<close>

theorem occupied_count_monotone:
  assumes "valid_config s E b" and "int (length (trace @ further)) \<le> LONG_MAX"
  shows "\<exists>r c r' c'.
     main_run s E b trace = Some (r, c) \<and>
     main_run s E b (trace @ further) = Some (r', c') \<and>
     length (sets c') = length (sets c) \<and>
     (\<forall>k<length (sets c).
        num (sets c ! k) \<le> num (sets c' ! k) \<and>
        (num (sets c ! k) = E \<longrightarrow> num (sets c' ! k) = E))"
proof -
  have len: "int (length trace) \<le> LONG_MAX" using assms(2) by simp
  from main_run_inv[OF assms(1) len] obtain r c where
    run: "main_run s E b trace = Some (r, c)" and inv: "state_inv s E b r c"
    and cnt: "opCounter c = int (length trace)" by blast
  have "opCounter c + int (length further) \<le> LONG_MAX" using cnt assms(2) by simp
  from main_loop_mono[OF assms(1) inv this] obtain r' c' where
    loop: "main_loop s b (r, c) further = Some (r', c')" and inv': "state_inv s E b r' c'"
    and l: "length (sets c') = length (sets c)"
    and m: "\<forall>k<length (sets c). num (sets c ! k) \<le> num (sets c' ! k)" by blast
  have run': "main_run s E b (trace @ further) = Some (r', c')"
    using run loop by (simp add: main_run_append)
  have up: "\<forall>k<length (sets c'). num (sets c' ! k) \<le> E"
    using set_ok_all[OF inv'] by (simp add: all_set_conv_all_nth)
  have "\<forall>k<length (sets c).
        num (sets c ! k) \<le> num (sets c' ! k) \<and>
        (num (sets c ! k) = E \<longrightarrow> num (sets c' ! k) = E)"
    using m up l by fastforce
  then show ?thesis using run run' l by blast
qed

text \<open>
  The witness: one set of two lines; it fills with two accesses and, once full, stays
  at \<open>num = 2\<close> through a hit and two evictions.
\<close>

theorem occupied_count_monotone_witness:
  "valid_config 0 2 0 \<and>
   int (length ([(CHR ''L'', 1::ulong, 1::int), (CHR ''L'', 2, 1)] @
                [(CHR ''L'', 1, 1), (CHR ''S'', 3, 1), (CHR ''L'', 4, 1)])) \<le> LONG_MAX \<and>
   (\<exists>r c r' c'.
     main_run 0 2 0 [(CHR ''L'', 1, 1), (CHR ''L'', 2, 1)] = Some (r, c) \<and>
     main_run 0 2 0 ([(CHR ''L'', 1, 1), (CHR ''L'', 2, 1)] @
                     [(CHR ''L'', 1, 1), (CHR ''S'', 3, 1), (CHR ''L'', 4, 1)]) = Some (r', c') \<and>
     length (sets c') = length (sets c) \<and>
     (\<forall>k<length (sets c).
        num (sets c ! k) \<le> num (sets c' ! k) \<and>
        (num (sets c ! k) = 2 \<longrightarrow> num (sets c' ! k) = 2))) \<and>
   map_option (\<lambda>(r, c). map num (sets c))
     (main_run 0 2 0 [(CHR ''L'', 1, 1), (CHR ''L'', 2, 1)]) = Some [2] \<and>
   map_option (\<lambda>(r, c). (evictions r, map num (sets c)))
     (main_run 0 2 0 [(CHR ''L'', 1, 1), (CHR ''L'', 2, 1),
                      (CHR ''L'', 1, 1), (CHR ''S'', 3, 1), (CHR ''L'', 4, 1)]) = Some (2, [2])"
proof -
  have h1: "valid_config 0 2 0" by (simp add: valid_config_def INT_MAX_def)
  have h2: "int (length ([(CHR ''L'', 1::ulong, 1::int), (CHR ''L'', 2, 1)] @
                [(CHR ''L'', 1, 1), (CHR ''S'', 3, 1), (CHR ''L'', 4, 1)])) \<le> LONG_MAX"
    by (simp add: LONG_MAX_def)
  have h3: "map_option (\<lambda>(r, c). map num (sets c))
     (main_run 0 2 0 [(CHR ''L'', 1, 1), (CHR ''L'', 2, 1)]) = Some [2]"
    by code_simp
  have h4: "map_option (\<lambda>(r, c). (evictions r, map num (sets c)))
     (main_run 0 2 0 [(CHR ''L'', 1, 1), (CHR ''L'', 2, 1),
                      (CHR ''L'', 1, 1), (CHR ''S'', 3, 1), (CHR ''L'', 4, 1)]) = Some (2, [2])"
    by code_simp
  note t = occupied_count_monotone[OF h1 h2]
  show ?thesis by (intro conjI h1 h2 h3 h4 t)
qed

text \<open>
  Claim C3. After every access of a run (after each prefix of the trace), the counter
  \<open>dirty_bytes\<close> is the sum of the block size over the lines in use, of all the sets,
  whose dirty bit is set. The sum is taken as the counter is, in \<open>unsigned long\<close>;
  whenever the number of dirty lines times the block size is below \<open>2 ^ 64\<close>, the
  value of the counter is that product.
\<close>

theorem dirty_bytes_conservation:
  assumes "valid_config s E b" and "int (length trace) \<le> LONG_MAX" and "n \<le> length trace"
  shows "\<exists>r c. main_run s E b (take n trace) = Some (r, c) \<and>
     dirty_bytes r = dirty_sum b c \<and>
     (dirty_count c * 2 ^ nat b < 2 ^ 64 \<longrightarrow>
        unat (dirty_bytes r) = dirty_count c * 2 ^ nat b)"
proof -
  have "int (length (take n trace)) \<le> LONG_MAX" using assms(2,3) by simp
  from main_run_inv[OF assms(1) this] obtain r c where
    run: "main_run s E b (take n trace) = Some (r, c)" and inv: "state_inv s E b r c"
    by blast
  have db: "dirty_bytes r = dirty_sum b c" using inv by (simp add: state_inv_def)
  have b: "0 \<le> b" "b \<le> 62" using assms(1) by (simp_all add: valid_config_def)
  have "dirty_count c * 2 ^ nat b < 2 ^ 64 \<longrightarrow>
        unat (dirty_bytes r) = dirty_count c * 2 ^ nat b"
    using dirty_sum_exact[OF b] db by simp
  then show ?thesis using run db by blast
qed

text \<open>
  The witness: two sets of two lines and blocks of 16 bytes. After three stores and a
  load, then after a fifth access that evicts a dirty line, the counter is 16 times
  the number of dirty lines.
\<close>

theorem dirty_bytes_conservation_witness:
  "valid_config 1 2 4 \<and>
   int (length [(CHR ''S'', 0::ulong, 1::int), (CHR ''S'', 0x10, 1), (CHR ''L'', 0x20, 1),
                (CHR ''S'', 0x30, 1), (CHR ''L'', 0x40, 1)]) \<le> LONG_MAX \<and>
   4 \<le> length [(CHR ''S'', 0::ulong, 1::int), (CHR ''S'', 0x10, 1), (CHR ''L'', 0x20, 1),
                (CHR ''S'', 0x30, 1), (CHR ''L'', 0x40, 1)] \<and>
   (\<exists>r c. main_run 1 2 4 (take 4 [(CHR ''S'', 0, 1), (CHR ''S'', 0x10, 1), (CHR ''L'', 0x20, 1),
                (CHR ''S'', 0x30, 1), (CHR ''L'', 0x40, 1)]) = Some (r, c) \<and>
     dirty_bytes r = dirty_sum 4 c \<and>
     (dirty_count c * 2 ^ nat 4 < 2 ^ 64 \<longrightarrow>
        unat (dirty_bytes r) = dirty_count c * 2 ^ nat 4)) \<and>
   map_option (\<lambda>(r, c). (dirty_bytes r, dirty_sum 4 c, dirty_count c, dirty_evictions r))
     (main_run 1 2 4 [(CHR ''S'', 0, 1), (CHR ''S'', 0x10, 1), (CHR ''L'', 0x20, 1),
                (CHR ''S'', 0x30, 1)]) = Some (48, 48, 3, 0) \<and>
   map_option (\<lambda>(r, c). (dirty_bytes r, dirty_sum 4 c, dirty_count c, dirty_evictions r))
     (main_run 1 2 4 [(CHR ''S'', 0, 1), (CHR ''S'', 0x10, 1), (CHR ''L'', 0x20, 1),
                (CHR ''S'', 0x30, 1), (CHR ''L'', 0x40, 1)]) = Some (32, 32, 2, 16)"
proof -
  have h1: "valid_config 1 2 4" by (simp add: valid_config_def INT_MAX_def)
  have h2: "int (length [(CHR ''S'', 0::ulong, 1::int), (CHR ''S'', 0x10, 1), (CHR ''L'', 0x20, 1),
                (CHR ''S'', 0x30, 1), (CHR ''L'', 0x40, 1)]) \<le> LONG_MAX"
    by (simp add: LONG_MAX_def)
  have h3: "4 \<le> length [(CHR ''S'', 0::ulong, 1::int), (CHR ''S'', 0x10, 1), (CHR ''L'', 0x20, 1),
                (CHR ''S'', 0x30, 1), (CHR ''L'', 0x40, 1)]"
    by simp
  have h4: "map_option (\<lambda>(r, c). (dirty_bytes r, dirty_sum 4 c, dirty_count c, dirty_evictions r))
     (main_run 1 2 4 [(CHR ''S'', 0, 1), (CHR ''S'', 0x10, 1), (CHR ''L'', 0x20, 1),
                (CHR ''S'', 0x30, 1)]) = Some (48, 48, 3, 0)"
    by code_simp
  have h5: "map_option (\<lambda>(r, c). (dirty_bytes r, dirty_sum 4 c, dirty_count c, dirty_evictions r))
     (main_run 1 2 4 [(CHR ''S'', 0, 1), (CHR ''S'', 0x10, 1), (CHR ''L'', 0x20, 1),
                (CHR ''S'', 0x30, 1), (CHR ''L'', 0x40, 1)]) = Some (32, 32, 2, 16)"
    by code_simp
  note t = dirty_bytes_conservation[OF h1 h2 h3]
  show ?thesis by (intro conjI h1 h2 h3 h4 h5 t)
qed

text \<open>
  Claim C6, as the spec states it: a record whose operation is neither \<open>L\<close> nor \<open>S\<close>
  changes neither the cache nor the counters. The code does not do that: \<open>main\<close> tests
  the operation against \<open>S\<close> only, and a record \<open>M 5,1\<close> on the fresh cache is
  a miss that fills a line and advances \<open>opCounter\<close>.
\<close>

theorem other_operation_counterexample:
  "main_run 0 1 0 [] =
     Some (\<lparr>hits = 0, misses = 0, evictions = 0, dirty_bytes = 0, dirty_evictions = 0\<rparr>,
           \<lparr>cache_s = 1, cache_E = 1, opCounter = 0,
            sets = [\<lparr>num = 0, capacity = 1,
                     lines = [\<lparr>dirtyBit = 0, tagBit = 0, lruCounter = 0\<rparr>]\<rparr>]\<rparr>) \<and>
   main_run 0 1 0 [(CHR ''M'', 5, 1)] =
     Some (\<lparr>hits = 0, misses = 1, evictions = 0, dirty_bytes = 0, dirty_evictions = 0\<rparr>,
           \<lparr>cache_s = 1, cache_E = 1, opCounter = 1,
            sets = [\<lparr>num = 1, capacity = 1,
                     lines = [\<lparr>dirtyBit = 0, tagBit = 5, lruCounter = 0\<rparr>]\<rparr>]\<rparr>)"
  by code_simp

text \<open>
  Claim C6, amended: a record whose operation is not \<open>S\<close>, be it \<open>L\<close> or any other
  character, is processed as a load of its address. It has the effect of the record
  \<open>L\<close> with the same address and size, and it counts as an access: \<open>opCounter\<close> and
  \<open>hits + misses\<close> grow by one.
\<close>

theorem other_operation_is_load:
  assumes "valid_config s E b" and "int (length trace) < LONG_MAX" and "oper \<noteq> CHR ''S''"
  shows "\<exists>r c r' c'.
     main_run s E b trace = Some (r, c) \<and>
     main_run s E b (trace @ [(oper, addr, sz)]) = Some (r', c') \<and>
     main_run s E b (trace @ [(CHR ''L'', addr, sz)]) = Some (r', c') \<and>
     opCounter c' = opCounter c + 1 \<and>
     unat (hits r') + unat (misses r') = unat (hits r) + unat (misses r) + 1"
proof (rule run_and_access[OF assms(1,2), of addr oper sz])
  fix r c setIdx tag r' c'
  assume f: "main_run s E b trace = Some (r, c)" "state_inv s E b r c"
    "opCounter c = int (length trace)"
    "main_run s E b (trace @ [(oper, addr, sz)]) = Some (r', c')"
    "state_inv s E b r' c'" "opCounter c' = opCounter c + 1"
  have u: "uint (hits r) + uint (misses r) = int (length trace)"
    "uint (evictions r) \<le> uint (misses r)"
    using f(2,3) by (simp_all add: state_inv_def)
  have u': "uint (hits r') + uint (misses r') = int (length trace + 1)"
    "uint (evictions r') \<le> uint (misses r')"
    using f(5,6,3) by (simp_all add: state_inv_def)
  have n: "unat (hits r') + unat (misses r') = unat (hits r) + unat (misses r) + 1"
    using unat_facts(1)[OF u] unat_facts(1)[OF u'] by simp
  have l: "main_run s E b (trace @ [(CHR ''L'', addr, sz)]) = Some (r', c')"
    using f(4) f(1) access_not_store[OF assms(3), of s b "(r, c)" addr sz]
    by (simp add: main_run_snoc)
  show ?thesis
    by (rule exI[of _ r], rule exI[of _ c], rule exI[of _ r'], rule exI[of _ c'])
      (intro conjI f(1) f(4) l f(6) n)
qed

text \<open>The witness: the record \<open>M 5,1\<close> on the fresh cache.\<close>

theorem other_operation_is_load_witness:
  "valid_config 0 1 0 \<and> int (length ([] :: trace_record list)) < LONG_MAX \<and>
   CHR ''M'' \<noteq> CHR ''S'' \<and>
   (\<exists>r c r' c'.
     main_run 0 1 0 [] = Some (r, c) \<and>
     main_run 0 1 0 ([] @ [(CHR ''M'', 5, 1)]) = Some (r', c') \<and>
     main_run 0 1 0 ([] @ [(CHR ''L'', 5, 1)]) = Some (r', c') \<and>
     opCounter c' = opCounter c + 1 \<and>
     unat (hits r') + unat (misses r') = unat (hits r) + unat (misses r) + 1)"
proof -
  have h1: "valid_config 0 1 0" by (simp add: valid_config_def INT_MAX_def)
  have h2: "int (length ([] :: trace_record list)) < LONG_MAX" by (simp add: LONG_MAX_def)
  have h3: "CHR ''M'' \<noteq> CHR ''S''" by simp
  note t = other_operation_is_load[OF h1 h2 h3, of 5 1]
  show ?thesis by (intro conjI h1 h2 h3 t)
qed

end
